theory Spec2Isabelle
  imports Complex_Main
begin

section \<open>Data separation: boolean-mask selection of rows\<close>

text \<open>
  The second notebook draws \<^verbatim>\<open>row_indices = np.random.permutation(X_norm.shape[0])\<close>
  and builds three sets with boolean masks:
  \<^verbatim>\<open>X_train = X_norm[row_indices < 600,:]\<close>,
  \<^verbatim>\<open>X_crossVal = X_norm[np.logical_and(row_indices > 600,row_indices <= 800),:]\<close>,
  \<^verbatim>\<open>X_test = X_norm[row_indices >= 800,:]\<close>.
  A rank 1 array is a list, a rank 2 array is the list of its rows, the integers of
  \<^verbatim>\<open>row_indices\<close> are \<open>int\<close> (the values stay far below the 64 bit range).
\<close>

datatype np_error = IndexError

text \<open>Comparison of an array with a scalar, element by element.\<close>

definition np_less :: "int list \<Rightarrow> int \<Rightarrow> bool list" where
  "np_less a c = map (\<lambda>v. v < c) a"

definition np_greater :: "int list \<Rightarrow> int \<Rightarrow> bool list" where
  "np_greater a c = map (\<lambda>v. v > c) a"

definition np_less_equal :: "int list \<Rightarrow> int \<Rightarrow> bool list" where
  "np_less_equal a c = map (\<lambda>v. v \<le> c) a"

definition np_greater_equal :: "int list \<Rightarrow> int \<Rightarrow> bool list" where
  "np_greater_equal a c = map (\<lambda>v. v \<ge> c) a"

definition np_logical_and :: "bool list \<Rightarrow> bool list \<Rightarrow> bool list" where
  "np_logical_and a b = map2 (\<and>) a b"

text \<open>
  \<^verbatim>\<open>X[mask,:]\<close> with a boolean mask walks the rows and the mask together and keeps
  the rows whose mask entry is true; a mask whose length is not the number of rows
  raises IndexError.
\<close>

fun compress_rows :: "'a list \<Rightarrow> bool list \<Rightarrow> 'a list" where
  "compress_rows (x # xs) (b # bs) =
     (if b then x # compress_rows xs bs else compress_rows xs bs)"
| "compress_rows _ _ = []"

definition boolean_index :: "'a list \<Rightarrow> bool list \<Rightarrow> np_error + 'a list" where
  "boolean_index X msk =
     (if length msk \<noteq> length X then Inl IndexError else Inr (compress_rows X msk))"

definition X_train :: "'a list \<Rightarrow> int list \<Rightarrow> np_error + 'a list" where
  "X_train X_norm row_indices = boolean_index X_norm (np_less row_indices 600)"

definition X_crossVal :: "'a list \<Rightarrow> int list \<Rightarrow> np_error + 'a list" where
  "X_crossVal X_norm row_indices =
     boolean_index X_norm
       (np_logical_and (np_greater row_indices 600) (np_less_equal row_indices 800))"

definition X_test :: "'a list \<Rightarrow> int list \<Rightarrow> np_error + 'a list" where
  "X_test X_norm row_indices = boolean_index X_norm (np_greater_equal row_indices 800)"

text \<open>
  \<^verbatim>\<open>np.random.permutation(N)\<close> returns the integers \<open>0\<close> to \<open>N - 1\<close> in some order:
  any list with this property is a possible value.
\<close>

definition is_permutation :: "nat \<Rightarrow> int list \<Rightarrow> bool" where
  "is_permutation N p \<longleftrightarrow> distinct p \<and> set p = {0..<int N}"

text \<open>The shape \<open>(m, n)\<close> of a rank 2 array given as the list of its rows.\<close>

definition has_shape :: "nat \<Rightarrow> nat \<Rightarrow> 'a list list \<Rightarrow> bool" where
  "has_shape m n X \<longleftrightarrow> length X = m \<and> list_all (\<lambda>row. length row = n) X"


section \<open>Mean normalization\<close>

text \<open>
  The first cells of the second notebook compute, for
  \<^verbatim>\<open>X = np.random.randint(0,5001,(1000,20))\<close>,
  \<^verbatim>\<open>ave_cols = X.mean(axis=0)\<close>, \<^verbatim>\<open>std_cols = X.std(axis=0)\<close> and
  \<^verbatim>\<open>X_norm = (X - ave_cols) / std_cols\<close>.
\<close>

text \<open>
  \<^verbatim>\<open>np.random.randint(low, high, (m, n))\<close> returns some integer array of shape
  \<open>(m, n)\<close> with entries in the half-open interval from \<open>low\<close> to \<open>high\<close>.
\<close>

definition is_randint :: "int \<Rightarrow> int \<Rightarrow> nat \<Rightarrow> nat \<Rightarrow> int list list \<Rightarrow> bool" where
  "is_randint low high m n X \<longleftrightarrow>
     has_shape m n X \<and> list_all (list_all (\<lambda>v. low \<le> v \<and> v < high)) X"

subsection \<open>Floats and rounding\<close>

text \<open>
  A float is either a finite number or one of the special values. Dividing by zero
  raises nothing: NumPy emits a RuntimeWarning and the result is an infinity or nan.
  The sign of zero is not modelled: a zero divisor counts as \<open>+0.0\<close>, which is what
  the square root in \<^verbatim>\<open>std\<close> returns.
\<close>

datatype npfloat = Finite real | PosInf | NegInf | NaN

fun np_isfinite :: "npfloat \<Rightarrow> bool" where
  "np_isfinite (Finite a) = True"
| "np_isfinite _ = False"

text \<open>
  Every arithmetic operation computes the real result and rounds it. The rounding is a
  parameter of the operations: \<open>float64\<close> is the code's arithmetic, \<open>exact\<close> is
  arithmetic without rounding, for the statements that are made of exact arithmetic.
\<close>

type_synonym rounding = "real \<Rightarrow> npfloat"

definition exact :: rounding where
  "exact x = Finite x"

text \<open>Rounding to the nearest integer, a tie to the even one.\<close>

definition round_half_even :: "real \<Rightarrow> int" where
  "round_half_even q =
     (if q - of_int \<lfloor>q\<rfloor> < 1 / 2 then \<lfloor>q\<rfloor>
      else if 1 / 2 < q - of_int \<lfloor>q\<rfloor> then \<lceil>q\<rceil>
      else if even \<lfloor>q\<rfloor> then \<lfloor>q\<rfloor> else \<lceil>q\<rceil>)"

text \<open>
  IEEE 754 binary64, round to nearest even, on a magnitude \<open>a\<close>: the exponent is that of
  \<open>a\<close>, at least \<open>-1022\<close> (below it the numbers are subnormal), a unit in the last
  place is \<open>2\<^sup>e\<^sup>-\<^sup>5\<^sup>2\<close>, and \<open>a\<close> is rounded to a multiple of it.
\<close>

definition round_mag :: "real \<Rightarrow> real" where
  "round_mag a =
     (let e = max \<lfloor>log 2 a\<rfloor> (- 1022);
          ulp = 2 powr (of_int e - 52)
      in of_int (round_half_even (a / ulp)) * ulp)"

text \<open>A result whose rounded magnitude reaches \<open>2\<^sup>1\<^sup>0\<^sup>2\<^sup>4\<close> overflows to an infinity.\<close>

definition float64 :: rounding where
  "float64 x =
     (if x = 0 then Finite 0
      else if 2 powr 1024 \<le> round_mag \<bar>x\<bar> then (if 0 < x then PosInf else NegInf)
      else Finite (sgn x * round_mag \<bar>x\<bar>))"

fun np_negative :: "npfloat \<Rightarrow> npfloat" where
  "np_negative (Finite a) = Finite (- a)"
| "np_negative PosInf = NegInf"
| "np_negative NegInf = PosInf"
| "np_negative NaN = NaN"

fun np_add :: "rounding \<Rightarrow> npfloat \<Rightarrow> npfloat \<Rightarrow> npfloat" where
  "np_add r (Finite a) (Finite b) = r (a + b)"
| "np_add r NaN _ = NaN"
| "np_add r _ NaN = NaN"
| "np_add r PosInf NegInf = NaN"
| "np_add r NegInf PosInf = NaN"
| "np_add r PosInf _ = PosInf"
| "np_add r _ PosInf = PosInf"
| "np_add r NegInf _ = NegInf"
| "np_add r _ NegInf = NegInf"

definition np_subtract :: "rounding \<Rightarrow> npfloat \<Rightarrow> npfloat \<Rightarrow> npfloat" where
  "np_subtract r a b = np_add r a (np_negative b)"

fun np_multiply :: "rounding \<Rightarrow> npfloat \<Rightarrow> npfloat \<Rightarrow> npfloat" where
  "np_multiply r (Finite a) (Finite b) = r (a * b)"
| "np_multiply r NaN _ = NaN"
| "np_multiply r _ NaN = NaN"
| "np_multiply r (Finite a) PosInf = (if a = 0 then NaN else if 0 < a then PosInf else NegInf)"
| "np_multiply r (Finite a) NegInf = (if a = 0 then NaN else if 0 < a then NegInf else PosInf)"
| "np_multiply r PosInf (Finite b) = (if b = 0 then NaN else if 0 < b then PosInf else NegInf)"
| "np_multiply r NegInf (Finite b) = (if b = 0 then NaN else if 0 < b then NegInf else PosInf)"
| "np_multiply r PosInf PosInf = PosInf"
| "np_multiply r PosInf NegInf = NegInf"
| "np_multiply r NegInf PosInf = NegInf"
| "np_multiply r NegInf NegInf = PosInf"

text \<open>
  The first branch of the first equation is the division by zero: \<open>0/0\<close> is nan, any
  other finite number over zero is an infinity.
\<close>

fun np_true_divide :: "rounding \<Rightarrow> npfloat \<Rightarrow> npfloat \<Rightarrow> npfloat" where
  "np_true_divide r (Finite a) (Finite b) =
     (if b = 0 then (if a = 0 then NaN else if 0 < a then PosInf else NegInf)
      else r (a / b))"
| "np_true_divide r NaN _ = NaN"
| "np_true_divide r _ NaN = NaN"
| "np_true_divide r (Finite a) PosInf = Finite 0"
| "np_true_divide r (Finite a) NegInf = Finite 0"
| "np_true_divide r PosInf (Finite b) = (if 0 \<le> b then PosInf else NegInf)"
| "np_true_divide r NegInf (Finite b) = (if 0 \<le> b then NegInf else PosInf)"
| "np_true_divide r PosInf PosInf = NaN"
| "np_true_divide r PosInf NegInf = NaN"
| "np_true_divide r NegInf PosInf = NaN"
| "np_true_divide r NegInf NegInf = NaN"

fun np_sqrt :: "rounding \<Rightarrow> npfloat \<Rightarrow> npfloat" where
  "np_sqrt r (Finite a) = (if a < 0 then NaN else r (sqrt a))"
| "np_sqrt r PosInf = PosInf"
| "np_sqrt r NegInf = NaN"
| "np_sqrt r NaN = NaN"

subsection \<open>The array operations\<close>

text \<open>
  An integer array used in float arithmetic is converted element by element; the
  conversion rounds (an integer above \<open>2\<^sup>5\<^sup>3\<close> need not be a float).
\<close>

definition astype_float :: "rounding \<Rightarrow> int list list \<Rightarrow> npfloat list list" where
  "astype_float r X = map (map (\<lambda>v. r (of_int v))) X"

text \<open>
  A reduction along axis 0 adds the rows element by element, one row after the other,
  starting from the first row. (An array with no rows is not the source's case; as a
  list of rows it carries no column count, and the sum is empty.)
\<close>

fun sum_axis0 :: "rounding \<Rightarrow> npfloat list list \<Rightarrow> npfloat list" where
  "sum_axis0 r [] = []"
| "sum_axis0 r (row # rows) = foldl (map2 (np_add r)) row rows"

text \<open>
  \<^verbatim>\<open>A.mean(axis=0)\<close>: the sum along axis 0, divided by the number of rows (an integer,
  converted to a float).
\<close>

definition mean_axis0 :: "rounding \<Rightarrow> npfloat list list \<Rightarrow> npfloat list" where
  "mean_axis0 r A =
     map (\<lambda>s. np_true_divide r s (r (real (length A)))) (sum_axis0 r A)"

text \<open>
  An operation between an array of shape \<open>(m, n)\<close> and one of shape \<open>(n,)\<close> broadcasts
  the vector across the rows. Both operands come from the same array here, so their
  shapes always agree.
\<close>

definition broadcast ::
  "(npfloat \<Rightarrow> npfloat \<Rightarrow> npfloat) \<Rightarrow> npfloat list list \<Rightarrow> npfloat list \<Rightarrow> npfloat list list"
where
  "broadcast f A v = map (\<lambda>row. map2 f row v) A"

text \<open>
  \<^verbatim>\<open>A.std(axis=0)\<close>, as NumPy computes it: the mean along the axis, the deviations
  \<^verbatim>\<open>x = arr - arrmean\<close>, their squares \<^verbatim>\<open>multiply(x, x)\<close>, the sum of the squares
  along the axis divided by the number of rows (\<^verbatim>\<open>ddof = 0\<close>), and the square root.
\<close>

definition std_axis0 :: "rounding \<Rightarrow> npfloat list list \<Rightarrow> npfloat list" where
  "std_axis0 r A =
     (let arrmean = mean_axis0 r A;
          x = broadcast (np_subtract r) A arrmean;
          x2 = map (\<lambda>row. map2 (np_multiply r) row row) x
      in map (np_sqrt r)
           (map (\<lambda>s. np_true_divide r s (r (real (length A)))) (sum_axis0 r x2)))"

definition ave_cols :: "rounding \<Rightarrow> int list list \<Rightarrow> npfloat list" where
  "ave_cols r X = mean_axis0 r (astype_float r X)"

definition std_cols :: "rounding \<Rightarrow> int list list \<Rightarrow> npfloat list" where
  "std_cols r X = std_axis0 r (astype_float r X)"

definition X_norm :: "rounding \<Rightarrow> int list list \<Rightarrow> npfloat list list" where
  "X_norm r X =
     broadcast (np_true_divide r)
       (broadcast (np_subtract r) (astype_float r X) (ave_cols r X)) (std_cols r X)"

text \<open>
  \<^verbatim>\<open>np.mean(A)\<close> with no axis, in exact arithmetic: the sum of all elements over their
  number. (In float arithmetic NumPy adds the elements in pairs, which this definition
  does not follow; without rounding the order does not matter.)
\<close>

definition mean_all :: "npfloat list list \<Rightarrow> npfloat" where
  "mean_all A =
     np_true_divide exact (foldl (np_add exact) (Finite 0) (concat A))
       (Finite (real (length (concat A))))"

subsection \<open>The formula in words\<close>

text \<open>
  The formula as the notebook's text and the specification state it, over the reals:
  the arithmetic mean \<open>\<mu>\<^sub>j\<close> and the population standard deviation \<open>\<sigma>\<^sub>j\<close> of column
  \<open>j\<close> of a matrix of reals, and of an integer matrix read as reals. These definitions
  follow the words, not the code; the theorems below compare them with the code's.
\<close>

definition column_mean :: "real list list \<Rightarrow> nat \<Rightarrow> real" where
  "column_mean R j = sum_list (map (\<lambda>row. row ! j) R) / real (length R)"

definition column_std :: "real list list \<Rightarrow> nat \<Rightarrow> real" where
  "column_std R j =
     sqrt (sum_list (map (\<lambda>row. (row ! j - column_mean R j)\<^sup>2) R) / real (length R))"

definition spec_mu :: "int list list \<Rightarrow> nat \<Rightarrow> real" where
  "spec_mu X j = column_mean (map (map real_of_int) X) j"

definition spec_sigma :: "int list list \<Rightarrow> nat \<Rightarrow> real" where
  "spec_sigma X j = column_std (map (map real_of_int) X) j"

text \<open>
  The same two quantities of one column of floats with every operation rounded: the
  values are added in order, the sum is divided by their number; the deviations from
  this mean are squared and added, the sum is divided by the number and the square root
  is taken.
\<close>

fun fl_sum :: "rounding \<Rightarrow> npfloat list \<Rightarrow> npfloat" where
  "fl_sum r [] = Finite 0"
| "fl_sum r (x # xs) = foldl (np_add r) x xs"

definition fl_mean :: "rounding \<Rightarrow> npfloat list \<Rightarrow> npfloat" where
  "fl_mean r xs = np_true_divide r (fl_sum r xs) (r (real (length xs)))"

definition fl_std :: "rounding \<Rightarrow> npfloat list \<Rightarrow> npfloat" where
  "fl_std r xs =
     np_sqrt r
       (np_true_divide r
          (fl_sum r (map (\<lambda>x. np_multiply r (np_subtract r x (fl_mean r xs))
                                             (np_subtract r x (fl_mean r xs))) xs))
          (r (real (length xs))))"

definition float_column :: "rounding \<Rightarrow> int list list \<Rightarrow> nat \<Rightarrow> npfloat list" where
  "float_column r X j = map (\<lambda>row. r (of_int (row ! j))) X"

text \<open>
  A sample array of shape \<open>(1000, 20)\<close>, used to instantiate the theorems: 500 rows of
  ones followed by 500 rows of fives. Every column has mean 3 and standard deviation 2.
\<close>

abbreviation two_level :: "int list list" where
  "two_level \<equiv> replicate 500 (replicate 20 1) @ replicate 500 (replicate 20 5)"

text \<open>
  A second sample of shape \<open>(1000, 20)\<close>: 100 rows of ones followed by 900 rows of zeros.
  Every column has mean 1/10 and standard deviation 3/10.
\<close>

abbreviation tenth_ones :: "int list list" where
  "tenth_ones \<equiv> replicate 100 (replicate 20 1) @ replicate 900 (replicate 20 0)"

section \<open>The training loop\<close>

text \<open>
  The first notebook trains the network with
  \<^verbatim>\<open>
  epochs = 3
  print_every = 40
  steps = 0
  for e in range(epochs):
      running_loss = 0
      for images, labels in iter(trainloader):
          steps += 1
          images.resize_(images.size()[0], 784)
          optimizer.zero_grad()
          output = model.forward(images)
          loss = criterion(output, labels)
          loss.backward()
          optimizer.step()
          running_loss += loss.item()
          if steps % print_every == 0:
              print("Epoch: {}/{}... ".format(e+1, epochs),
                    "Loss: {:.4f}".format(running_loss/print_every))
              running_loss = 0
  \<close>
  The calls into the framework (resize, zero_grad, forward, criterion, backward, step,
  item) are one parameter \<open>train_step\<close>: from the state of the network and optimizer and
  a mini-batch it returns the new state and the value of \<^verbatim>\<open>loss.item()\<close>, taken as a
  real. The loader shuffles, so each \<^verbatim>\<open>iter(trainloader)\<close> may yield other batches: the
  loader is a function from the epoch to the finite list of batches of that pass. A
  printed line is the triple of the numbers it formats.
\<close>

definition epochs :: int where
  "epochs = 3"

definition print_every :: int where
  "print_every = 40"

record 'm train_state =
  steps :: int
  running_loss :: real
  net :: 'm
  printed :: "(int \<times> int \<times> real) list"

definition batch_body ::
  "('m \<Rightarrow> 'b \<Rightarrow> 'm \<times> real) \<Rightarrow> int \<Rightarrow> 'b \<Rightarrow> 'm train_state \<Rightarrow> 'm train_state"
where
  "batch_body train_step e batch s =
     (let steps' = steps s + 1;
          (net', loss) = train_step (net s) batch;
          running_loss' = running_loss s + loss
      in if steps' mod print_every = 0
         then s\<lparr>steps := steps', running_loss := 0, net := net',
                printed := printed s @ [(e + 1, epochs, running_loss' / real_of_int print_every)]\<rparr>
         else s\<lparr>steps := steps', running_loss := running_loss', net := net'\<rparr>)"

text \<open>
  The two \<^verbatim>\<open>for\<close> loops, as loops over an iterator: the next element is taken until
  the iterator is exhausted. Nothing in the definition says that they end.
\<close>

partial_function (option) batch_loop ::
  "('m \<Rightarrow> 'b \<Rightarrow> 'm \<times> real) \<Rightarrow> int \<Rightarrow> 'b list \<Rightarrow> 'm train_state \<Rightarrow> 'm train_state option"
where [code]:
  "batch_loop train_step e it s =
     (case it of
        [] \<Rightarrow> Some s
      | batch # it' \<Rightarrow> batch_loop train_step e it' (batch_body train_step e batch s))"

partial_function (option) epoch_loop ::
  "('m \<Rightarrow> 'b \<Rightarrow> 'm \<times> real) \<Rightarrow> (int \<Rightarrow> 'b list) \<Rightarrow> int list \<Rightarrow> 'm train_state
     \<Rightarrow> 'm train_state option"
where [code]:
  "epoch_loop train_step trainloader it s =
     (case it of
        [] \<Rightarrow> Some s
      | e # it' \<Rightarrow>
          (case batch_loop train_step e (trainloader e) (s\<lparr>running_loss := 0\<rparr>) of
             None \<Rightarrow> None
           | Some s' \<Rightarrow> epoch_loop train_step trainloader it' s'))"

text \<open>\<^verbatim>\<open>range(epochs)\<close> is the list \<open>[0..epochs - 1]\<close>.\<close>

definition training ::
  "('m \<Rightarrow> 'b \<Rightarrow> 'm \<times> real) \<Rightarrow> (int \<Rightarrow> 'b list) \<Rightarrow> 'm \<Rightarrow> 'm train_state option"
where
  "training train_step trainloader net0 =
     epoch_loop train_step trainloader [0..epochs - 1]
       \<lparr>steps = 0, running_loss = 0, net = net0, printed = []\<rparr>"


section \<open>Properties of the data separation\<close>

lemma compress_rows_nth:
  "length msk = length X \<Longrightarrow>
   compress_rows X msk = map (nth X) (filter (nth msk) [0..<length X])"
proof (induction X msk rule: compress_rows.induct)
  case (1 x xs b bs)
  have "[0..<length (x # xs)] = 0 # map Suc [0..<length xs]"
    by (simp add: upt_conv_Cons map_Suc_upt del: upt_Suc)
  then show ?case using 1 by (simp add: filter_map comp_def del: upt_Suc)
qed simp_all

lemma length_compress_rows:
  "length msk = length X \<Longrightarrow> length (compress_rows X msk) = length (filter id msk)"
  by (induction X msk rule: compress_rows.induct) auto

lemma set_compress_rows: "set (compress_rows X msk) \<subseteq> set X"
  by (induction X msk rule: compress_rows.induct) auto

lemma is_permutation_length: "is_permutation N p \<Longrightarrow> length p = N"
  unfolding is_permutation_def
  by (metis card_atLeastLessThan_int distinct_card nat_int diff_zero)

lemma count_true_map:
  "distinct p \<Longrightarrow> length (filter id (map P p)) = card {x \<in> set p. P x}"
  by (simp add: filter_map comp_def distinct_length_filter Collect_conj_eq Int_commute)

lemma crossVal_mask_eq:
  "np_logical_and (np_greater p 600) (np_less_equal p 800) = map (\<lambda>v. 600 < v \<and> v \<le> 800) p"
  unfolding np_logical_and_def np_greater_def np_less_equal_def
  by (simp add: zip_map_map map_zip_map zip_same_conv_map)

lemma card_train: "card {x \<in> {0..<1000::int}. x < 600} = 600"
proof -
  have "{x \<in> {0..<1000::int}. x < 600} = {0..<600}" by auto
  then show ?thesis by simp
qed

lemma card_crossVal: "card {x \<in> {0..<1000::int}. 600 < x \<and> x \<le> 800} = 200"
proof -
  have "{x \<in> {0..<1000::int}. 600 < x \<and> x \<le> 800} = {601..800}" by auto
  then show ?thesis by simp
qed

lemma card_test: "card {x \<in> {0..<1000::int}. 800 \<le> x} = 200"
proof -
  have "{x \<in> {0..<1000::int}. 800 \<le> x} = {800..<1000}" by auto
  then show ?thesis by simp
qed

lemma has_shape_compress:
  assumes "has_shape m n X" and "length msk = m" and "length (filter id msk) = k"
  shows "has_shape k n (compress_rows X msk)"
  using assms set_compress_rows[of X msk]
  by (auto simp: has_shape_def list_all_iff length_compress_rows)

text \<open>
  C6. For every permutation of \<open>0, \<dots>, 999\<close> and every array of shape \<open>(1000, 20)\<close>,
  the three selections succeed and have the shapes \<open>(600, 20)\<close>, \<open>(200, 20)\<close> and
  \<open>(200, 20)\<close>; the three masks are true at exactly 600, 200 and 200 positions.
\<close>

theorem split_shapes:
  assumes "is_permutation 1000 row_indices" and "has_shape 1000 20 A"
  shows "\<exists>tr cv te.
           X_train A row_indices = Inr tr \<and> has_shape 600 20 tr \<and>
           X_crossVal A row_indices = Inr cv \<and> has_shape 200 20 cv \<and>
           X_test A row_indices = Inr te \<and> has_shape 200 20 te \<and>
           length (filter id (np_less row_indices 600)) = 600 \<and>
           length (filter id (np_logical_and (np_greater row_indices 600)
              (np_less_equal row_indices 800))) = 200 \<and>
           length (filter id (np_greater_equal row_indices 800)) = 200"
proof -
  from assms(1) have len: "length row_indices = 1000" by (rule is_permutation_length)
  from assms(1) have d: "distinct row_indices" and s: "set row_indices = {0..<1000}"
    by (simp_all add: is_permutation_def)
  from assms(2) have lx: "length A = 1000" by (simp add: has_shape_def)
  have c1: "length (filter id (np_less row_indices 600)) = 600"
    unfolding np_less_def using count_true_map[OF d, of "\<lambda>v. v < 600"] card_train s by simp
  have c2: "length (filter id (np_logical_and (np_greater row_indices 600)
              (np_less_equal row_indices 800))) = 200"
    unfolding crossVal_mask_eq
    using count_true_map[OF d, of "\<lambda>v. 600 < v \<and> v \<le> 800"] card_crossVal s by simp
  have c3: "length (filter id (np_greater_equal row_indices 800)) = 200"
    unfolding np_greater_equal_def
    using count_true_map[OF d, of "\<lambda>v. 800 \<le> v"] card_test s by simp
  have l1: "length (np_less row_indices 600) = 1000" by (simp add: np_less_def len)
  have l2: "length (np_logical_and (np_greater row_indices 600)
              (np_less_equal row_indices 800)) = 1000"
    by (simp add: crossVal_mask_eq len)
  have l3: "length (np_greater_equal row_indices 800) = 1000"
    by (simp add: np_greater_equal_def len)
  have "X_train A row_indices = Inr (compress_rows A (np_less row_indices 600))"
    by (simp add: X_train_def boolean_index_def l1 lx)
  moreover have "X_crossVal A row_indices = Inr (compress_rows A
      (np_logical_and (np_greater row_indices 600) (np_less_equal row_indices 800)))"
    by (simp add: X_crossVal_def boolean_index_def l2 lx)
  moreover have "X_test A row_indices =
      Inr (compress_rows A (np_greater_equal row_indices 800))"
    by (simp add: X_test_def boolean_index_def l3 lx)
  ultimately show ?thesis
    using has_shape_compress[OF assms(2) l1 c1] has_shape_compress[OF assms(2) l2 c2]
      has_shape_compress[OF assms(2) l3 c3] c1 c2 c3
    by simp
qed

lemma perm_rev_upto: "is_permutation 1000 (rev [0..999])"
  unfolding is_permutation_def by auto

lemma shape_replicate: "has_shape 1000 20 (replicate 1000 (replicate 20 (0::int)))"
  by (simp add: has_shape_def list_all_iff)

theorem split_shapes_witness:
  "is_permutation 1000 (rev [0..999]) \<and>
   has_shape 1000 20 (replicate 1000 (replicate 20 (0::int))) \<and>
   (\<exists>tr cv te.
      X_train (replicate 1000 (replicate 20 (0::int))) (rev [0..999]) = Inr tr \<and>
      has_shape 600 20 tr \<and>
      X_crossVal (replicate 1000 (replicate 20 (0::int))) (rev [0..999]) = Inr cv \<and>
      has_shape 200 20 cv \<and>
      X_test (replicate 1000 (replicate 20 (0::int))) (rev [0..999]) = Inr te \<and>
      has_shape 200 20 te)"
  using split_shapes[OF perm_rev_upto shape_replicate] perm_rev_upto shape_replicate
  by blast

lemma boolean_index_positions:
  assumes "length msk = length X"
  shows "\<exists>ps. boolean_index X msk = Inr (map (nth X) ps) \<and> sorted_wrt (<) ps \<and>
          set ps = {i. i < length X \<and> msk ! i}"
proof -
  let ?ps = "filter (nth msk) [0..<length X]"
  have "boolean_index X msk = Inr (map (nth X) ?ps)"
    using assms by (simp add: boolean_index_def compress_rows_nth)
  moreover have "sorted_wrt (<) ?ps"
    by (rule sorted_wrt_filter) (simp add: sorted_wrt_upt)
  moreover have "set ?ps = {i. i < length X \<and> msk ! i}" by auto
  ultimately show ?thesis by blast
qed

lemma split_positions:
  assumes len: "length row_indices = length A"
  shows "(\<exists>ps. X_train A row_indices = Inr (map (nth A) ps) \<and> sorted_wrt (<) ps \<and>
            set ps = {i. i < length A \<and> row_indices ! i < 600}) \<and>
         (\<exists>ps. X_crossVal A row_indices = Inr (map (nth A) ps) \<and> sorted_wrt (<) ps \<and>
            set ps = {i. i < length A \<and> 600 < row_indices ! i \<and> row_indices ! i \<le> 800}) \<and>
         (\<exists>ps. X_test A row_indices = Inr (map (nth A) ps) \<and> sorted_wrt (<) ps \<and>
            set ps = {i. i < length A \<and> 800 \<le> row_indices ! i})"
proof -
    have m1: "{i. i < length A \<and> np_less row_indices 600 ! i} =
            {i. i < length A \<and> row_indices ! i < 600}"
    by (auto simp: np_less_def len)
  have m2: "{i. i < length A \<and> np_logical_and (np_greater row_indices 600)
               (np_less_equal row_indices 800) ! i} =
            {i. i < length A \<and> 600 < row_indices ! i \<and> row_indices ! i \<le> 800}"
    by (auto simp: crossVal_mask_eq len)
  have m3: "{i. i < length A \<and> np_greater_equal row_indices 800 ! i} =
            {i. i < length A \<and> 800 \<le> row_indices ! i}"
    by (auto simp: np_greater_equal_def len)
  have "length (np_less row_indices 600) = length A" by (simp add: np_less_def len)
  from boolean_index_positions[OF this] have t1: "\<exists>ps. X_train A row_indices = Inr (map (nth A) ps) \<and> sorted_wrt (<) ps \<and>
            set ps = {i. i < length A \<and> row_indices ! i < 600}"
    unfolding X_train_def m1 .
  have "length (np_logical_and (np_greater row_indices 600)
               (np_less_equal row_indices 800)) = length A" by (simp add: crossVal_mask_eq len)
  from boolean_index_positions[OF this] have t2: "\<exists>ps. X_crossVal A row_indices = Inr (map (nth A) ps) \<and> sorted_wrt (<) ps \<and>
            set ps = {i. i < length A \<and> 600 < row_indices ! i \<and> row_indices ! i \<le> 800}"
    unfolding X_crossVal_def m2 .
  have "length (np_greater_equal row_indices 800) = length A" by (simp add: np_greater_equal_def len)
  from boolean_index_positions[OF this] have t3: "\<exists>ps. X_test A row_indices = Inr (map (nth A) ps) \<and> sorted_wrt (<) ps \<and>
            set ps = {i. i < length A \<and> 800 \<le> row_indices ! i}"
    unfolding X_test_def m3 .
  from t1 t2 t3 show ?thesis by blast
qed


text \<open>
  C8. Each of the three sets lists the rows it selects in increasing position of the
  source array: it is the image of a strictly increasing list of positions, namely the
  positions whose entry of \<open>row_indices\<close> satisfies the mask. The permutation decides
  which positions are selected, not the order of the selected rows.
\<close>

theorem split_keeps_row_order:
  assumes "is_permutation (length A) row_indices"
  shows "(\<exists>ps. X_train A row_indices = Inr (map (nth A) ps) \<and> sorted_wrt (<) ps \<and>
            set ps = {i. i < length A \<and> row_indices ! i < 600}) \<and>
         (\<exists>ps. X_crossVal A row_indices = Inr (map (nth A) ps) \<and> sorted_wrt (<) ps \<and>
            set ps = {i. i < length A \<and> 600 < row_indices ! i \<and> row_indices ! i \<le> 800}) \<and>
         (\<exists>ps. X_test A row_indices = Inr (map (nth A) ps) \<and> sorted_wrt (<) ps \<and>
            set ps = {i. i < length A \<and> 800 \<le> row_indices ! i})"
  by (rule split_positions) (rule is_permutation_length[OF assms])

theorem split_keeps_row_order_witness:
  "is_permutation (length (replicate 1000 (replicate 20 (0::int)))) (rev [0..999]) \<and>
   (\<exists>ps. X_train (replicate 1000 (replicate 20 (0::int))) (rev [0..999]) =
           Inr (map (nth (replicate 1000 (replicate 20 (0::int)))) ps) \<and>
         sorted_wrt (<) ps \<and>
         set ps = {i. i < length (replicate 1000 (replicate 20 (0::int))) \<and>
                      rev [0..999] ! i < 600})"
proof -
  have p: "is_permutation (length (replicate 1000 (replicate 20 (0::int)))) (rev [0..999])"
    using perm_rev_upto by simp
  from split_keeps_row_order[OF p] p show ?thesis by blast
qed

lemma member_selected:
  assumes "distinct X" and "i < length X" and "set ps = {k. k < length X \<and> P k}"
  shows "X ! i \<in> set (map (nth X) ps) \<longleftrightarrow> P i"
proof
  assume "X ! i \<in> set (map (nth X) ps)"
  then obtain k where k: "k \<in> set ps" and eq: "X ! k = X ! i" by auto
  from k assms(3) have "k < length X" and "P k" by simp_all
  with eq assms(1,2) have "k = i" by (simp add: nth_eq_iff_index_eq)
  with \<open>P k\<close> show "P i" by simp
next
  assume "P i"
  with assms(2,3) have "i \<in> set ps" by simp
  then show "X ! i \<in> set (map (nth X) ps)" by simp
qed

lemma split_gap_overlap:
  assumes len: "length p = length X" and d: "distinct X"
    and i: "i < length X" "p ! i = 600" and j: "j < length X" "p ! j = 800"
  shows "\<exists>tr cv te. X_train X p = Inr tr \<and> X_crossVal X p = Inr cv \<and> X_test X p = Inr te \<and>
           X ! i \<notin> set tr \<and> X ! i \<notin> set cv \<and> X ! i \<notin> set te \<and>
           X ! j \<in> set cv \<and> X ! j \<in> set te"
proof -
  from split_positions[OF len] obtain p1 p2 p3 where
    t: "X_train X p = Inr (map (nth X) p1)" "set p1 = {k. k < length X \<and> p ! k < 600}" and
    c: "X_crossVal X p = Inr (map (nth X) p2)"
       "set p2 = {k. k < length X \<and> 600 < p ! k \<and> p ! k \<le> 800}" and
    e: "X_test X p = Inr (map (nth X) p3)" "set p3 = {k. k < length X \<and> 800 \<le> p ! k}"
    by blast
  have "X ! i \<notin> set (map (nth X) p1)" using member_selected[OF d i(1) t(2)] i(2) by simp
  moreover have "X ! i \<notin> set (map (nth X) p2)"
    using member_selected[OF d i(1) c(2)] i(2) by simp
  moreover have "X ! i \<notin> set (map (nth X) p3)"
    using member_selected[OF d i(1) e(2)] i(2) by simp
  moreover have "X ! j \<in> set (map (nth X) p2)"
    using member_selected[OF d j(1) c(2)] j(2) by simp
  moreover have "X ! j \<in> set (map (nth X) p3)"
    using member_selected[OF d j(1) e(2)] j(2) by simp
  ultimately show ?thesis using t(1) c(1) e(1) by blast
qed

lemma split_never_partition:
  assumes "is_permutation (length X) p" and "length X = 1000" and "distinct X"
  shows "\<exists>i j tr cv te. i < length X \<and> j < length X \<and>
           X_train X p = Inr tr \<and> X_crossVal X p = Inr cv \<and> X_test X p = Inr te \<and>
           X ! i \<notin> set tr \<and> X ! i \<notin> set cv \<and> X ! i \<notin> set te \<and>
           X ! j \<in> set cv \<and> X ! j \<in> set te"
proof -
  from assms(1) have len: "length p = length X" by (rule is_permutation_length)
  from assms(1,2) have "600 \<in> set p" and "800 \<in> set p" by (simp_all add: is_permutation_def)
  then obtain i j where "i < length p" "p ! i = 600" "j < length p" "p ! j = 800"
    by (metis in_set_conv_nth)
  with len have i: "i < length X" "p ! i = 600" and j: "j < length X" "p ! j = 800" by simp_all
  from split_gap_overlap[OF len assms(3) i j] i(1) j(1) show ?thesis by blast
qed

lemma distinct_labelled_rows:
  "distinct (map (\<lambda>i. replicate 20 (Finite (real i))) [0..<1000])"
  by (intro distinct_map[THEN iffD2] conjI distinct_upt inj_onI) simp

text \<open>
  C1. With the identity permutation (a possible value of \<open>row_indices\<close>) and an array
  whose row \<open>i\<close> holds the number \<open>i\<close> in each of its 20 columns, the row at position
  600 is in none of the three sets and the row at position 800 is in both the cross
  validation set and the test set: the masks \<open>600 < r\<close> and \<open>r \<le> 800\<close> leave out
  the value 600 and share the value 800 with \<open>800 \<le> r\<close>.
\<close>

theorem split_identity_not_partition:
  "\<exists>tr cv te.
     X_train (map (\<lambda>i. replicate 20 (Finite (real i))) [0..<1000]) [0..999] = Inr tr \<and>
     X_crossVal (map (\<lambda>i. replicate 20 (Finite (real i))) [0..<1000]) [0..999] = Inr cv \<and>
     X_test (map (\<lambda>i. replicate 20 (Finite (real i))) [0..<1000]) [0..999] = Inr te \<and>
     replicate 20 (Finite 600) \<notin> set tr \<and> replicate 20 (Finite 600) \<notin> set cv \<and>
     replicate 20 (Finite 600) \<notin> set te \<and>
     replicate 20 (Finite 800) \<in> set cv \<and> replicate 20 (Finite 800) \<in> set te"
proof -
  define X where "X = map (\<lambda>i. replicate 20 (Finite (real i))) [0..<1000]"
  have l: "length [0..999] = length X" by (simp add: X_def)
  have d: "distinct X" unfolding X_def by (rule distinct_labelled_rows)
  have a: "(600::nat) < length X" "[0..999] ! 600 = 600" by (simp_all add: X_def nth_upto)
  have b: "(800::nat) < length X" "[0..999] ! 800 = 800" by (simp_all add: X_def nth_upto)
  have r: "X ! 600 = replicate 20 (Finite 600)" "X ! 800 = replicate 20 (Finite 800)"
    by (simp_all add: X_def)
  from split_gap_overlap[OF l d a b, unfolded r] show ?thesis unfolding X_def .
qed


section \<open>Properties of the rounding\<close>

lemma round_half_even_cases: "round_half_even q = \<lfloor>q\<rfloor> \<or> round_half_even q = \<lceil>q\<rceil>"
  by (simp add: round_half_even_def)

lemma round_half_even_of_int: "round_half_even (of_int n) = n"
  by (simp add: round_half_even_def)

lemma round_half_even_le: "q \<le> of_int N \<Longrightarrow> round_half_even q \<le> N"
proof -
  assume "q \<le> of_int N"
  then have "\<lceil>q\<rceil> \<le> N" by (simp add: ceiling_le_iff)
  moreover have "\<lfloor>q\<rfloor> \<le> \<lceil>q\<rceil>" by (rule floor_le_ceiling)
  ultimately show ?thesis using round_half_even_cases[of q] by linarith
qed

lemma round_half_even_ge: "of_int N \<le> q \<Longrightarrow> N \<le> round_half_even q"
proof -
  assume "of_int N \<le> q"
  then have "N \<le> \<lfloor>q\<rfloor>" by (simp add: le_floor_iff)
  moreover have "\<lfloor>q\<rfloor> \<le> \<lceil>q\<rceil>" by (rule floor_le_ceiling)
  ultimately show ?thesis using round_half_even_cases[of q] by linarith
qed

lemma pow2_int: "0 \<le> k \<Longrightarrow> 2 powr real_of_int k = of_int (2 ^ nat k)"
  by (simp add: powr_real_of_int)

lemma pow2_mono: "a \<le> b \<Longrightarrow> (2::real) powr a \<le> 2 powr b"
  by (simp add: powr_mono)

lemma floor_log2_ge: "0 < a \<Longrightarrow> k \<le> \<lfloor>log 2 a\<rfloor> \<longleftrightarrow> 2 powr real_of_int k \<le> a"
  by (simp add: le_floor_iff le_log_iff)

lemma floor_log2_less: "0 < a \<Longrightarrow> \<lfloor>log 2 a\<rfloor> < k \<longleftrightarrow> a < 2 powr real_of_int k"
  using floor_log2_ge[of a k] by linarith

lemma floor_log2_mono: "0 < a \<Longrightarrow> a \<le> t \<Longrightarrow> \<lfloor>log 2 a\<rfloor> \<le> \<lfloor>log 2 t\<rfloor>"
  by (intro floor_mono) simp

text \<open>A magnitude with a significand below \<open>2\<^sup>5\<^sup>3\<close> and an exponent in range is a float.\<close>

lemma round_mag_exact:
  assumes z: "0 < z" "z < 2 ^ 53" and k: "- 1074 \<le> k"
  shows "round_mag (of_int z * 2 powr real_of_int k) = of_int z * 2 powr real_of_int k"
proof -
  define a where "a = real_of_int z * 2 powr real_of_int k"
  define e where "e = max \<lfloor>log 2 a\<rfloor> (- 1022)"
  have apos: "0 < a" using z(1) by (simp add: a_def)
  have "a < 2 ^ 53 * 2 powr real_of_int k"
  proof -
    from z(2) have "real_of_int z < 2 ^ 53" by (metis of_int_less_iff of_int_numeral of_int_power)
    then show ?thesis unfolding a_def by (simp add: mult_strict_right_mono)
  qed
  also have "\<dots> = 2 powr real_of_int (53 + k)"
    by (simp add: powr_add)
  finally have "\<lfloor>log 2 a\<rfloor> < 53 + k" using apos by (simp only: floor_log2_less)
  with k have ek: "e - 52 \<le> k" by (simp add: e_def)
  define j where "j = k - (e - 52)"
  have j: "0 \<le> j" using ek by (simp add: j_def)
  have split: "2 powr real_of_int k = 2 powr real_of_int j * 2 powr (real_of_int e - 52)"
    unfolding j_def by (simp add: powr_add[symmetric])
  have "a / 2 powr (real_of_int e - 52) = real_of_int z * 2 powr real_of_int j"
    unfolding a_def split by simp
  also have "\<dots> = real_of_int (z * 2 ^ nat j)" by (simp add: pow2_int[OF j])
  finally have q: "a / 2 powr (real_of_int e - 52) = real_of_int (z * 2 ^ nat j)" .
  have "round_mag a = real_of_int (z * 2 ^ nat j) * 2 powr (real_of_int e - 52)"
    unfolding round_mag_def Let_def e_def[symmetric] q round_half_even_of_int ..
  also have "\<dots> = a" unfolding q[symmetric] by simp
  finally show ?thesis unfolding a_def .
qed

lemma round_mag_nonneg: "0 \<le> a \<Longrightarrow> 0 \<le> round_mag a"
proof -
  assume a: "0 \<le> a"
  define u where "u = 2 powr (real_of_int (max \<lfloor>log 2 a\<rfloor> (- 1022)) - 52)"
  have "real_of_int 0 \<le> a / u" using a by (simp add: u_def)
  then have "0 \<le> round_half_even (a / u)" by (rule round_half_even_ge)
  then show ?thesis unfolding round_mag_def Let_def u_def[symmetric] by (simp add: u_def)
qed

lemma round_mag_dyadic: "\<exists>z k. round_mag a = real_of_int z * 2 powr real_of_int k"
proof -
  have "real_of_int (max \<lfloor>log 2 a\<rfloor> (- 1022)) - 52 = real_of_int (max \<lfloor>log 2 a\<rfloor> (- 1022) - 52)"
    by simp
  then show ?thesis unfolding round_mag_def Let_def by metis
qed

text \<open>Rounding does not cross a float above and does not cross a power of two below.\<close>

lemma round_mag_le:
  assumes a: "0 < a" and at: "a \<le> t" and t: "round_mag t = t"
  shows "round_mag a \<le> t"
proof -
  define ea where "ea = max \<lfloor>log 2 a\<rfloor> (- 1022)"
  define et where "et = max \<lfloor>log 2 t\<rfloor> (- 1022)"
  define ua where "ua = 2 powr (real_of_int ea - 52)"
  define ut where "ut = 2 powr (real_of_int et - 52)"
  define N where "N = round_half_even (t / ut)"
  have uapos: "0 < ua" by (simp add: ua_def)
  have tN: "t = real_of_int N * ut"
    using t unfolding round_mag_def Let_def et_def[symmetric] ut_def[symmetric] N_def[symmetric]
    by simp
  from floor_log2_mono[OF a at] have le: "ea \<le> et" by (simp add: ea_def et_def)
  then have "0 \<le> et - ea" by simp
  from pow2_int[OF this] have p: "2 powr real_of_int (et - ea) = real_of_int (2 ^ nat (et - ea))" .
  have "2 powr (real_of_int et - 52) =
          2 powr real_of_int (et - ea) * 2 powr (real_of_int ea - 52)"
    by (simp add: powr_add[symmetric])
  then have "ut = real_of_int (2 ^ nat (et - ea)) * ua"
    unfolding ut_def ua_def p .
  with tN have "t = real_of_int (N * 2 ^ nat (et - ea)) * ua" by simp
  then have tq: "t / ua = real_of_int (N * 2 ^ nat (et - ea))" using uapos by simp
  from at uapos have "a / ua \<le> t / ua" by (simp add: divide_right_mono)
  then have "round_half_even (a / ua) \<le> N * 2 ^ nat (et - ea)"
    unfolding tq by (rule round_half_even_le)
  then have "real_of_int (round_half_even (a / ua)) \<le> real_of_int (N * 2 ^ nat (et - ea))"
    by (simp only: of_int_le_iff)
  then have "real_of_int (round_half_even (a / ua)) * ua \<le> t / ua * ua"
    unfolding tq using uapos by (simp only: mult_le_cancel_right_pos)
  then show ?thesis
    unfolding round_mag_def Let_def ea_def[symmetric] ua_def[symmetric] using uapos by simp
qed

lemma round_mag_lower:
  assumes k: "- 1022 \<le> k" and ka: "2 powr real_of_int k \<le> a"
  shows "2 powr real_of_int k \<le> round_mag a \<and>
         (\<exists>z. round_mag a = real_of_int z * 2 powr (real_of_int k - 52))"
proof -
  define e where "e = \<lfloor>log 2 a\<rfloor>"
  define u where "u = 2 powr (real_of_int e - 52)"
  have apos: "0 < a" using ka powr_gt_zero[of 2 "real_of_int k"] by linarith
  from ka have ke: "k \<le> e" unfolding e_def by (simp only: floor_log2_ge[OF apos])
  with k have emax: "max \<lfloor>log 2 a\<rfloor> (- 1022) = e" by (simp add: e_def)
  have upos: "0 < u" by (simp add: u_def)
  have "e \<le> \<lfloor>log 2 a\<rfloor>" by (simp add: e_def)
  then have ea: "2 powr real_of_int e \<le> a" by (simp only: floor_log2_ge[OF apos])
  have "2 powr real_of_int e = real_of_int (2 ^ 52) * u"
    unfolding u_def by (simp add: powr_diff)
  with ea upos have "real_of_int (2 ^ 52) \<le> a / u" by (simp add: pos_le_divide_eq)
  then have "2 ^ 52 \<le> round_half_even (a / u)" by (rule round_half_even_ge)
  then have "real_of_int (2 ^ 52) \<le> real_of_int (round_half_even (a / u))"
    by (simp only: of_int_le_iff)
  then have "real_of_int (2 ^ 52) * u \<le> real_of_int (round_half_even (a / u)) * u"
    using upos by (simp only: mult_le_cancel_right_pos)
  then have "2 powr real_of_int e \<le> round_mag a"
    unfolding round_mag_def Let_def emax u_def[symmetric]
    using \<open>2 powr real_of_int e = real_of_int (2 ^ 52) * u\<close> by simp
  moreover have "2 powr real_of_int k \<le> 2 powr real_of_int e" using ke by (simp add: pow2_mono)
  ultimately have 1: "2 powr real_of_int k \<le> round_mag a" by linarith
  from ke have "0 \<le> e - k" by simp
  from pow2_int[OF this] have p: "2 powr real_of_int (e - k) = real_of_int (2 ^ nat (e - k))" .
  have "2 powr (real_of_int e - 52) =
          2 powr real_of_int (e - k) * 2 powr (real_of_int k - 52)"
    by (simp add: powr_add[symmetric])
  then have "u = real_of_int (2 ^ nat (e - k)) * 2 powr (real_of_int k - 52)"
    unfolding u_def p .
  then have "round_mag a =
      real_of_int (round_half_even (a / u) * 2 ^ nat (e - k)) * 2 powr (real_of_int k - 52)"
    unfolding round_mag_def Let_def emax u_def[symmetric] by simp
  with 1 show ?thesis by blast
qed

lemma float64_pos:
  assumes "0 < x" and "round_mag x < 2 powr 1024"
  shows "float64 x = Finite (round_mag x)"
  using assms by (simp add: float64_def)

lemma float64_minus: "float64 (- x) = np_negative (float64 x)"
  by (simp add: float64_def sgn_if)

lemma float64_upper:
  assumes x: "0 \<le> x" "x \<le> t" and t: "round_mag t = t" "t < 2 powr 1024"
  shows "\<exists>y. float64 x = Finite y \<and> 0 \<le> y \<and> y \<le> t"
proof (cases "x = 0")
  case True
  with x show ?thesis by (simp add: float64_def)
next
  case False
  with x have pos: "0 < x" by simp
  from round_mag_le[OF pos x(2) t(1)] have le: "round_mag x \<le> t" .
  with t(2) have "round_mag x < 2 powr 1024" by simp
  from float64_pos[OF pos this] le round_mag_nonneg[of x] pos show ?thesis by simp
qed

lemma float64_abs_upper:
  assumes x: "\<bar>x\<bar> \<le> t" and t: "round_mag t = t" "t < 2 powr 1024"
  shows "\<exists>y. float64 x = Finite y \<and> \<bar>y\<bar> \<le> t"
proof (cases "0 \<le> x")
  case True
  with x have "x \<le> t" by simp
  from float64_upper[OF True this t] show ?thesis by auto
next
  case False
  then have "0 \<le> - x" and "- x \<le> t" using x by simp_all
  from float64_upper[OF this t] obtain y where "float64 (- x) = Finite y" "0 \<le> y" "y \<le> t"
    by blast
  then have "float64 x = Finite (- y)"
    unfolding float64_minus by (cases "float64 x") simp_all
  with \<open>0 \<le> y\<close> \<open>y \<le> t\<close> show ?thesis by simp
qed

lemma float64_lower_pos:
  assumes k: "- 1022 \<le> k" and x: "2 powr real_of_int k \<le> x" "x \<le> t"
    and t: "round_mag t = t" "t < 2 powr 1024"
  shows "\<exists>y z. float64 x = Finite y \<and> 2 powr real_of_int k \<le> y \<and> y \<le> t \<and>
           y = real_of_int z * 2 powr (real_of_int k - 52)"
proof -
  have pos: "0 < x" using x(1) powr_gt_zero[of 2 "real_of_int k"] by linarith
  from round_mag_le[OF pos x(2) t(1)] have le: "round_mag x \<le> t" .
  with t(2) have "round_mag x < 2 powr 1024" by simp
  from float64_pos[OF pos this] have "float64 x = Finite (round_mag x)" .
  with round_mag_lower[OF k x(1)] le show ?thesis by blast
qed

lemma float64_lower:
  assumes k: "- 1022 \<le> k" and x: "2 powr real_of_int k \<le> \<bar>x\<bar>" "\<bar>x\<bar> \<le> t"
    and t: "round_mag t = t" "t < 2 powr 1024"
  shows "\<exists>y z. float64 x = Finite y \<and> 2 powr real_of_int k \<le> \<bar>y\<bar> \<and> \<bar>y\<bar> \<le> t \<and>
           y = real_of_int z * 2 powr (real_of_int k - 52)"
proof (cases "0 \<le> x")
  case True
  with x have "2 powr real_of_int k \<le> x" "x \<le> t" by simp_all
  from float64_lower_pos[OF k this t] obtain y z where
    y: "float64 x = Finite y" "2 powr real_of_int k \<le> y" "y \<le> t"
       "y = real_of_int z * 2 powr (real_of_int k - 52)" by blast
  from y(2) powr_gt_zero[of 2 "real_of_int k"] have "0 < y" by linarith
  with y show ?thesis by (intro exI[of _ y] exI[of _ z]) simp
next
  case False
  with x have "2 powr real_of_int k \<le> - x" "- x \<le> t" by simp_all
  from float64_lower_pos[OF k this t] obtain y z where
    y: "float64 (- x) = Finite y" "2 powr real_of_int k \<le> y" "y \<le> t"
       "y = real_of_int z * 2 powr (real_of_int k - 52)" by blast
  from y(2) powr_gt_zero[of 2 "real_of_int k"] have ypos: "0 < y" by linarith
  from y(1) have fx: "float64 x = Finite (- y)"
    unfolding float64_minus by (cases "float64 x") simp_all
  from y(4) have "- y = real_of_int (- z) * 2 powr (real_of_int k - 52)" by simp
  with fx y(2,3) ypos show ?thesis by (intro exI[of _ "- y"] exI[of _ "- z"]) simp
qed

lemma float64_dyadic:
  assumes "float64 x = Finite y"
  shows "\<exists>z k. y = real_of_int z * 2 powr real_of_int k"
proof (cases "x = 0")
  case True
  with assms have "y = real_of_int 0 * 2 powr real_of_int 0" by (simp add: float64_def)
  then show ?thesis by blast
next
  case False
  with assms have y: "y = sgn x * round_mag \<bar>x\<bar>"
    by (simp add: float64_def split: if_splits)
  from round_mag_dyadic[of "\<bar>x\<bar>"] obtain z k where
    r: "round_mag \<bar>x\<bar> = real_of_int z * 2 powr real_of_int k" by blast
  have "y = real_of_int (if 0 < x then z else - z) * 2 powr real_of_int k"
    using False by (simp add: y r sgn_if)
  then show ?thesis by blast
qed

lemma round_mag_pow2: "- 1074 \<le> k \<Longrightarrow> round_mag (2 powr real_of_int k) = 2 powr real_of_int k"
  using round_mag_exact[of 1 k] by simp

lemma round_mag_int:
  assumes "0 < n" and "n < 2 ^ 53"
  shows "round_mag (real_of_int n) = real_of_int n"
  using round_mag_exact[OF assms, of 0] by simp

lemma pow2_1024_gt: "real_of_int n < 2 ^ 53 \<Longrightarrow> real_of_int n < 2 powr 1024"
proof -
  assume "real_of_int n < 2 ^ 53"
  moreover have "(2::real) ^ 53 \<le> 2 ^ 1024" by (rule power_increasing) simp_all
  moreover have "(2::real) powr 1024 = 2 ^ 1024" by simp
  ultimately show ?thesis by linarith
qed

lemma float64_int:
  assumes "\<bar>n\<bar> < 2 ^ 53"
  shows "float64 (real_of_int n) = Finite (real_of_int n)"
proof -
  have pos: "float64 (real_of_int k) = Finite (real_of_int k)" if "0 < k" "k < 2 ^ 53" for k
  proof -
    from that(2) have "real_of_int k < 2 ^ 53"
      by (metis of_int_less_iff of_int_numeral of_int_power)
    then have "round_mag (real_of_int k) < 2 powr 1024"
      unfolding round_mag_int[OF that] by (rule pow2_1024_gt)
    with that show ?thesis by (simp add: float64_pos round_mag_int)
  qed
  consider "n = 0" | "0 < n" | "n < 0" by linarith
  then show ?thesis
  proof cases
    case 1
    then show ?thesis by (simp add: float64_def)
  next
    case 2
    with assms show ?thesis by (intro pos) simp_all
  next
    case 3
    with assms have "float64 (real_of_int (- n)) = Finite (real_of_int (- n))"
      by (intro pos) simp_all
    then show ?thesis
      using float64_minus[of "real_of_int n"] by (cases "float64 (real_of_int n)") simp_all
  qed
qed

lemma float64_zero: "float64 0 = Finite 0"
  by (simp add: float64_def)

lemma pow2_neg: "2 powr real_of_int (- int k) = 1 / 2 ^ k"
  by (simp add: powr_minus powr_realpow inverse_eq_divide)

lemma pow2_nat: "2 powr real_of_int (int k) = 2 ^ k"
  by (simp add: powr_realpow)

lemma representable_pow2: "round_mag (2 ^ K) = 2 ^ K"
proof -
  have "round_mag (2 powr real_of_int (int K)) = 2 powr real_of_int (int K)"
    by (rule round_mag_pow2) simp
  then show ?thesis by (simp only: pow2_nat)
qed

lemma pow2_below_overflow: "K \<le> 1023 \<Longrightarrow> (2::real) ^ K < 2 powr 1024"
proof -
  assume "K \<le> 1023"
  then have "(2::real) ^ K < 2 ^ 1024" by (intro power_strict_increasing) simp_all
  then show ?thesis by simp
qed

text \<open>A result of magnitude at most \<open>2\<^sup>K\<close> is finite and stays below \<open>2\<^sup>K\<close>.\<close>

lemma float64_small:
  assumes "\<bar>x\<bar> \<le> 2 ^ K" and "K \<le> 1023"
  shows "\<exists>y. float64 x = Finite y \<and> \<bar>y\<bar> \<le> 2 ^ K"
  by (rule float64_abs_upper[OF assms(1) representable_pow2 pow2_below_overflow[OF assms(2)]])

lemma float64_small_nonneg:
  assumes "0 \<le> x" and "x \<le> 2 ^ K" and "K \<le> 1023"
  shows "\<exists>y. float64 x = Finite y \<and> 0 \<le> y \<and> y \<le> 2 ^ K"
  by (rule float64_upper[OF assms(1,2) representable_pow2 pow2_below_overflow[OF assms(3)]])

text \<open>
  A result of magnitude between \<open>2\<^sup>-\<^sup>k\<close> and \<open>2\<^sup>K\<close> stays between them, and is a multiple of
  \<open>2\<^sup>-\<^sup>k\<^sup>-\<^sup>5\<^sup>2\<close>.
\<close>

lemma float64_between:
  assumes "1 / 2 ^ k \<le> \<bar>x\<bar>" and "\<bar>x\<bar> \<le> 2 ^ K" and "k \<le> 1022" and "K \<le> 1023"
  shows "\<exists>y z. float64 x = Finite y \<and> 1 / 2 ^ k \<le> \<bar>y\<bar> \<and> \<bar>y\<bar> \<le> 2 ^ K \<and>
           y = real_of_int z / 2 ^ (k + 52)"
proof -
  have k: "- 1022 \<le> - int k" using assms(3) by simp
  have lo: "2 powr real_of_int (- int k) \<le> \<bar>x\<bar>" using assms(1) by (simp only: pow2_neg)
  have g: "2 powr (real_of_int (- int k) - 52) = 1 / 2 ^ (k + 52)"
  proof -
    have "real_of_int (- int k) - 52 = real_of_int (- int (k + 52))" by simp
    then show ?thesis by (simp only: pow2_neg)
  qed
  from float64_lower[OF k lo assms(2) representable_pow2 pow2_below_overflow[OF assms(4)]]
  show ?thesis unfolding pow2_neg g by simp
qed

lemma float64_between_pos:
  assumes "1 / 2 ^ k \<le> x" and "x \<le> 2 ^ K" and "k \<le> 1022" and "K \<le> 1023"
  shows "\<exists>y z. float64 x = Finite y \<and> 1 / 2 ^ k \<le> y \<and> y \<le> 2 ^ K \<and>
           y = real_of_int z / 2 ^ (k + 52)"
proof -
  have k: "- 1022 \<le> - int k" using assms(3) by simp
  have lo: "2 powr real_of_int (- int k) \<le> x" using assms(1) by (simp only: pow2_neg)
  have g: "2 powr (real_of_int (- int k) - 52) = 1 / 2 ^ (k + 52)"
  proof -
    have "real_of_int (- int k) - 52 = real_of_int (- int (k + 52))" by simp
    then show ?thesis by (simp only: pow2_neg)
  qed
  from float64_lower_pos[OF k lo assms(2) representable_pow2 pow2_below_overflow[OF assms(4)]]
  show ?thesis unfolding pow2_neg g by simp
qed

lemma float64_nat:
  assumes "n < 2 ^ 53"
  shows "float64 (real n) = Finite (real n)"
proof -
  from assms have "int n < 2 ^ 53" by (metis of_nat_less_iff of_nat_numeral of_nat_power)
  then have "\<bar>int n\<bar> < 2 ^ 53" by simp
  from float64_int[OF this] show ?thesis by simp
qed

subsection \<open>Sums of small integers are exact\<close>

lemma foldl_float64_ints:
  assumes "0 \<le> a" and "\<forall>v \<in> set vs. 0 \<le> v" and "a + sum_list vs < 2 ^ 53"
  shows "foldl (np_add float64) (Finite (real_of_int a)) (map (\<lambda>v. Finite (real_of_int v)) vs) =
           Finite (real_of_int (a + sum_list vs))"
  using assms
proof (induction vs arbitrary: a)
  case Nil
  then show ?case by simp
next
  case (Cons v vs)
  from Cons.prems have v: "0 \<le> v" and rest: "\<forall>v \<in> set vs. 0 \<le> v" by simp_all
  from rest have "0 \<le> sum_list vs" by (simp add: sum_list_nonneg)
  with Cons.prems v have "\<bar>a + v\<bar> < 2 ^ 53" by simp
  from float64_int[OF this] have "float64 (real_of_int a + real_of_int v) = Finite (real_of_int (a + v))"
    by simp
  moreover have "0 \<le> a + v" using Cons.prems(1) v by simp
  moreover have "(a + v) + sum_list vs < 2 ^ 53" using Cons.prems(3) by simp
  ultimately show ?case using Cons.IH[OF _ rest, of "a + v"] by (simp add: add.assoc)
qed

lemma fl_sum_ints:
  assumes "\<forall>v \<in> set vs. 0 \<le> v" and "sum_list vs < 2 ^ 53"
  shows "fl_sum float64 (map (\<lambda>v. Finite (real_of_int v)) vs) = Finite (real_of_int (sum_list vs))"
proof (cases vs)
  case Nil
  then show ?thesis by simp
next
  case (Cons v ws)
  with assms have "0 \<le> v" "\<forall>v \<in> set ws. 0 \<le> v" "v + sum_list ws < 2 ^ 53" by simp_all
  from foldl_float64_ints[OF this] show ?thesis by (simp add: Cons)
qed

subsection \<open>Sums of bounded squares\<close>

lemma representable_multiple:
  assumes "0 < n" and "n < 2 ^ 53"
  shows "round_mag (real n * 2 ^ K) = real n * 2 ^ K"
proof -
  from assms(2) have "int n < 2 ^ 53" by (metis of_nat_less_iff of_nat_numeral of_nat_power)
  moreover from assms(1) have "0 < int n" by simp
  ultimately have "round_mag (real_of_int (int n) * 2 powr real_of_int (int K)) =
      real_of_int (int n) * 2 powr real_of_int (int K)"
    by (intro round_mag_exact) simp_all
  then show ?thesis by (simp add: powr_realpow)
qed

lemma foldl_float64_squares:
  assumes a: "0 \<le> a" "a \<le> real i * 2 ^ 26" and i: "0 < i"
    and ss: "\<forall>s \<in> set ss. 0 \<le> s \<and> s \<le> 2 ^ 26"
    and len: "i + length ss \<le> 1024" and k: "k \<le> 1022"
  shows "\<exists>T. foldl (np_add float64) (Finite a) (map Finite ss) = Finite T \<and>
           0 \<le> T \<and> T \<le> real (i + length ss) * 2 ^ 26 \<and>
           ((1 / 2 ^ k \<le> a \<or> (\<exists>s \<in> set ss. 1 / 2 ^ k \<le> s)) \<longrightarrow> 1 / 2 ^ k \<le> T)"
  using a i ss len
proof (induction ss arbitrary: a i)
  case Nil
  then show ?case by simp
next
  case (Cons s ss)
  from Cons.prems have s: "0 \<le> s" "s \<le> 2 ^ 26"
    and rest: "\<forall>s \<in> set ss. 0 \<le> s \<and> s \<le> 2 ^ 26" by simp_all
  define t where "t = real (Suc i) * 2 ^ 26"
  have i53: "Suc i < 2 ^ 53" using Cons.prems(5) by simp
  have rep: "round_mag t = t" unfolding t_def by (rule representable_multiple[OF _ i53]) simp
  have "real (Suc i) \<le> 2 ^ 11" using Cons.prems(5) by simp
  then have "t \<le> 2 ^ 11 * 2 ^ 26" unfolding t_def by (simp only: mult_right_mono zero_le_power zero_le_numeral)
  then have t37: "t \<le> 2 ^ 37" by simp
  then have tlt: "t < 2 powr 1024" using pow2_below_overflow[of 37] by simp
  have sum0: "0 \<le> a + s" using Cons.prems(1) s(1) by simp
  have sumt: "a + s \<le> t" using Cons.prems(2) s(2) by (simp add: t_def algebra_simps)
  from float64_upper[OF sum0 sumt rep tlt] obtain a' where
    a': "float64 (a + s) = Finite a'" "0 \<le> a'" "a' \<le> t" by blast
  have low: "1 / 2 ^ k \<le> a'" if "1 / 2 ^ k \<le> a + s"
  proof -
    from sumt t37 have "a + s \<le> 2 ^ 37" by simp
    from float64_between_pos[OF that this k] a'(1) show ?thesis by simp
  qed
  have "a' \<le> real (Suc i) * 2 ^ 26" using a'(3) by (simp add: t_def)
  moreover have "0 < Suc i" by simp
  moreover have "Suc i + length ss \<le> 1024" using Cons.prems(5) by simp
  ultimately obtain T where
    T: "foldl (np_add float64) (Finite a') (map Finite ss) = Finite T" "0 \<le> T"
       "T \<le> real (Suc i + length ss) * 2 ^ 26"
       "(1 / 2 ^ k \<le> a' \<or> (\<exists>s \<in> set ss. 1 / 2 ^ k \<le> s)) \<longrightarrow> 1 / 2 ^ k \<le> T"
    using Cons.IH[OF a'(2) _ _ rest] by blast
  have "(1 / 2 ^ k \<le> a \<or> (\<exists>x \<in> set (s # ss). 1 / 2 ^ k \<le> x)) \<longrightarrow> 1 / 2 ^ k \<le> T"
  proof
    assume "1 / 2 ^ k \<le> a \<or> (\<exists>x \<in> set (s # ss). 1 / 2 ^ k \<le> x)"
    then consider "1 / 2 ^ k \<le> a" | "1 / 2 ^ k \<le> s" | "\<exists>x \<in> set ss. 1 / 2 ^ k \<le> x" by auto
    then show "1 / 2 ^ k \<le> T"
    proof cases
      case 1
      with s(1) have "1 / 2 ^ k \<le> a + s" by linarith
      from low[OF this] T(4) show ?thesis by blast
    next
      case 2
      with Cons.prems(1) have "1 / 2 ^ k \<le> a + s" by linarith
      from low[OF this] T(4) show ?thesis by blast
    next
      case 3
      with T(4) show ?thesis by blast
    qed
  qed
  with T(1,2,3) a'(1) show ?case by simp
qed

lemma fl_sum_squares:
  assumes ss: "\<forall>s \<in> set ss. 0 \<le> s \<and> s \<le> 2 ^ 26" and ne: "ss \<noteq> []"
    and len: "length ss \<le> 1024" and k: "k \<le> 1022"
  shows "\<exists>T. fl_sum float64 (map Finite ss) = Finite T \<and> 0 \<le> T \<and> T \<le> 2 ^ 36 \<and>
           ((\<exists>s \<in> set ss. 1 / 2 ^ k \<le> s) \<longrightarrow> 1 / 2 ^ k \<le> T)"
proof -
  from ne obtain s0 rest where ss_eq: "ss = s0 # rest" by (cases ss) auto
  from ss have s0: "0 \<le> s0" "s0 \<le> real 1 * 2 ^ 26"
    and r: "\<forall>s \<in> set rest. 0 \<le> s \<and> s \<le> 2 ^ 26" by (simp_all add: ss_eq)
  from len have l: "1 + length rest \<le> 1024" by (simp add: ss_eq)
  from foldl_float64_squares[OF s0 _ r l k] obtain T where
    T: "foldl (np_add float64) (Finite s0) (map Finite rest) = Finite T" "0 \<le> T"
       "T \<le> real (1 + length rest) * 2 ^ 26"
       "(1 / 2 ^ k \<le> s0 \<or> (\<exists>s \<in> set rest. 1 / 2 ^ k \<le> s)) \<longrightarrow> 1 / 2 ^ k \<le> T"
    by auto
  from l have "real (1 + length rest) \<le> 2 ^ 10" by simp
  then have "real (1 + length rest) * 2 ^ 26 \<le> 2 ^ 10 * 2 ^ 26"
    by (simp only: mult_right_mono zero_le_power zero_le_numeral)
  with T(3) have "T \<le> 2 ^ 36" by simp
  with T(1,2,4) show ?thesis by (auto simp: ss_eq)
qed

subsection \<open>One column of small integers in binary64\<close>

lemma sum_list_int_upper:
  "\<forall>v \<in> set vs. v \<le> B \<Longrightarrow> sum_list vs \<le> B * int (length vs)" for B :: int
  by (induction vs) (simp_all add: algebra_simps)

lemma sum_list_int_member:
  "\<forall>v \<in> set vs. 0 \<le> v \<Longrightarrow> a \<in> set vs \<Longrightarrow> a \<le> sum_list vs" for a :: int
proof (induction vs)
  case Nil
  then show ?case by simp
next
  case (Cons v vs)
  from Cons.prems(1) have "0 \<le> sum_list vs" by (simp add: sum_list_nonneg)
  with Cons show ?case by auto
qed

lemma column_sum_small:
  assumes "\<forall>v \<in> set vs. 0 \<le> v \<and> v \<le> 5000" and "length vs \<le> 1024"
  shows "sum_list vs < 2 ^ 53" and "sum_list vs \<le> 5000 * int (length vs)"
proof -
  from assms(1) show le: "sum_list vs \<le> 5000 * int (length vs)"
    by (intro sum_list_int_upper) simp
  from assms(2) have "5000 * int (length vs) \<le> 5000 * 1024" by simp
  with le show "sum_list vs < 2 ^ 53" by simp
qed

lemma fl_mean_ints:
  assumes "\<forall>v \<in> set vs. 0 \<le> v \<and> v \<le> 5000" and "0 < length vs" and "length vs \<le> 1024"
  shows "fl_mean float64 (map (\<lambda>v. Finite (real_of_int v)) vs) =
           float64 (real_of_int (sum_list vs) / real (length vs))"
proof -
  from assms(1) have nn: "\<forall>v \<in> set vs. 0 \<le> v" by simp
  from assms(3) have "length vs < 2 ^ 53" by simp
  from float64_nat[OF this] fl_sum_ints[OF nn column_sum_small(1)[OF assms(1,3)]] assms(2)
  show ?thesis by (simp add: fl_mean_def)
qed

text \<open>A column that holds one value: the mean is the value, the deviation is zero.\<close>

lemma constant_column:
  assumes "0 \<le> v" and "v \<le> 5000" and "0 < m" and "m \<le> 1024"
  shows "fl_mean float64 (map (\<lambda>v. Finite (real_of_int v)) (replicate m v)) =
           Finite (real_of_int v)"
    and "fl_std float64 (map (\<lambda>v. Finite (real_of_int v)) (replicate m v)) = Finite 0"
proof -
  let ?xs = "map (\<lambda>v. Finite (real_of_int v)) (replicate m v)"
  have all: "\<forall>w \<in> set (replicate m v). 0 \<le> w \<and> w \<le> 5000" using assms(1,2) by simp
  have fv: "float64 (real_of_int v) = Finite (real_of_int v)"
    using assms(1,2) by (intro float64_int) simp
  have "real_of_int (sum_list (replicate m v)) / real (length (replicate m v)) = real_of_int v"
    using assms(3) by (simp add: sum_list_replicate)
  with fl_mean_ints[OF all] assms(3,4) fv
  show mean: "fl_mean float64 ?xs = Finite (real_of_int v)" by simp
  then have mean': "fl_mean float64 (replicate m (Finite (real_of_int v))) = Finite (real_of_int v)"
    by simp
  have "map (\<lambda>x. np_multiply float64 (np_subtract float64 x (fl_mean float64 ?xs))
                                      (np_subtract float64 x (fl_mean float64 ?xs))) ?xs =
        map (\<lambda>v. Finite (real_of_int v)) (replicate m 0)"
    by (simp add: mean' np_subtract_def float64_zero)
  moreover have "fl_sum float64 (map (\<lambda>v. Finite (real_of_int v)) (replicate m (0::int))) =
      Finite (real_of_int (sum_list (replicate m 0)))"
    by (rule fl_sum_ints) (simp_all add: sum_list_replicate)
  moreover have "float64 (real m) = Finite (real m)" using assms(4) by (intro float64_nat) simp
  ultimately show "fl_std float64 ?xs = Finite 0"
    using assms(3) by (simp add: fl_std_def float64_zero sum_list_replicate)
qed

text \<open>
  A column that holds two distinct values between 0 and 5000, in at most 1024 rows: the
  mean is at least \<open>2\<^sup>-\<^sup>1\<^sup>0\<close> and a multiple of \<open>2\<^sup>-\<^sup>6\<^sup>2\<close>, so some deviation is at least
  \<open>2\<^sup>-\<^sup>6\<^sup>2\<close> in magnitude, its square does not underflow, and the standard deviation is
  positive; no quotient overflows.
\<close>

lemma nonconstant_column:
  assumes bnd: "\<forall>v \<in> set vs. 0 \<le> v \<and> v \<le> 5000"
    and len: "0 < length vs" "length vs \<le> 1024"
    and nc: "a \<in> set vs" "b \<in> set vs" "a \<noteq> b"
  shows "\<exists>y \<sigma>. fl_mean float64 (map (\<lambda>v. Finite (real_of_int v)) vs) = Finite y \<and>
           fl_std float64 (map (\<lambda>v. Finite (real_of_int v)) vs) = Finite \<sigma> \<and> 0 < \<sigma> \<and>
           (\<forall>v \<in> set vs. \<exists>q.
              np_true_divide float64
                (np_subtract float64 (Finite (real_of_int v)) (Finite y)) (Finite \<sigma>) = Finite q)"
proof -
  define xs where "xs = map (\<lambda>v. Finite (real_of_int v)) vs"
  define S where "S = sum_list vs"
  define m where "m = length vs"
  have mpos: "0 < real m" and m10: "real m \<le> 2 ^ 10" using len by (simp_all add: m_def)
  have m1: "1 \<le> real m" using len(1) by (simp add: m_def Suc_le_eq)
  \<comment> \<open>the mean\<close>
  from bnd have nn: "\<forall>v \<in> set vs. 0 \<le> v" by simp
  from bnd nc(1,2) have "0 \<le> a" "0 \<le> b" by auto
  with nc(3) have "1 \<le> a \<or> 1 \<le> b" by linarith
  with sum_list_int_member[OF nn nc(1)] sum_list_int_member[OF nn nc(2)] have S1: "1 \<le> S"
    unfolding S_def by linarith
  then have rS1: "1 \<le> real_of_int S" by simp
  from column_sum_small(2)[OF bnd len(2)] have "real_of_int S \<le> 5000 * real m"
    unfolding S_def m_def by (metis of_int_le_iff of_int_mult of_int_numeral of_int_of_nat_eq)
  then have "real_of_int S / real m \<le> 5000" using mpos by (simp add: pos_divide_le_eq)
  then have qhi: "real_of_int S / real m \<le> 2 ^ 13" by simp
  have "1 / 2 ^ 10 \<le> real_of_int S / real m"
    using rS1 mpos m10 by (intro frac_le) simp_all
  from float64_between_pos[OF this qhi] obtain y z where
    y: "float64 (real_of_int S / real m) = Finite y" "1 / 2 ^ 10 \<le> y" "y \<le> 2 ^ 13"
       "y = real_of_int z / 2 ^ 62" by auto
  have "(0::real) < 1 / 2 ^ 10" by simp
  with y(2) have ypos: "0 < y" by linarith
  have mean: "fl_mean float64 xs = Finite y"
    unfolding xs_def using fl_mean_ints[OF bnd len] y(1) by (simp add: S_def m_def)
  \<comment> \<open>the deviations and their squares\<close>
  define d where "d v = (case float64 (real_of_int v - y) of Finite u \<Rightarrow> u | _ \<Rightarrow> 0)" for v
  define sq where "sq v = (case float64 (d v * d v) of Finite u \<Rightarrow> u | _ \<Rightarrow> 0)" for v
  have dv: "float64 (real_of_int v - y) = Finite (d v) \<and> \<bar>d v\<bar> \<le> 2 ^ 13" if "v \<in> set vs" for v
  proof -
    from bnd that have "0 \<le> real_of_int v" "real_of_int v \<le> 5000" by simp_all
    with ypos y(3) have "\<bar>real_of_int v - y\<bar> \<le> 2 ^ 13" by simp
    from float64_small[OF this] show ?thesis by (auto simp: d_def)
  qed
  have sub: "np_subtract float64 (Finite (real_of_int v)) (Finite y) = Finite (d v)"
    if "v \<in> set vs" for v
    using dv[OF that] by (simp add: np_subtract_def)
  have dd: "d v * d v \<le> 2 ^ 26" if "v \<in> set vs" for v
  proof -
    from dv[OF that] have "\<bar>d v\<bar> * \<bar>d v\<bar> \<le> 2 ^ 13 * 2 ^ 13"
      by (intro mult_mono) simp_all
    then show ?thesis by (simp add: abs_mult_self_eq)
  qed
  have sqv: "float64 (d v * d v) = Finite (sq v) \<and> 0 \<le> sq v \<and> sq v \<le> 2 ^ 26"
    if "v \<in> set vs" for v
  proof -
    have "0 \<le> d v * d v" by simp
    from float64_small_nonneg[OF this dd[OF that]] show ?thesis by (auto simp: sq_def)
  qed
  have sqlist: "map (\<lambda>x. np_multiply float64 (np_subtract float64 x (fl_mean float64 xs))
                                        (np_subtract float64 x (fl_mean float64 xs))) xs =
                map Finite (map sq vs)"
    unfolding xs_def mean[unfolded xs_def] using sub sqv by simp
  \<comment> \<open>one deviation is not zero\<close>
  from nc(3) obtain w where w: "w \<in> set vs" "real_of_int w \<noteq> y"
    using nc(1,2) by (metis of_int_eq_iff)
  define N where "N = w * 2 ^ 62 - z"
  have wy: "real_of_int w - y = real_of_int N / 2 ^ 62"
    unfolding N_def y(4) by (simp add: field_simps)
  with w(2) have "N \<noteq> 0" by auto
  then have "1 \<le> \<bar>N\<bar>" by linarith
  then have "real_of_int 1 \<le> real_of_int \<bar>N\<bar>" by (simp only: of_int_le_iff)
  then have "1 \<le> \<bar>real_of_int N\<bar>" by simp
  then have "1 / 2 ^ 62 \<le> \<bar>real_of_int N\<bar> / 2 ^ 62" by (simp add: divide_right_mono)
  then have wlo: "1 / 2 ^ 62 \<le> \<bar>real_of_int w - y\<bar>" unfolding wy by simp
  from bnd w(1) have "0 \<le> real_of_int w" "real_of_int w \<le> 5000" by simp_all
  with ypos y(3) have whi: "\<bar>real_of_int w - y\<bar> \<le> 2 ^ 13" by simp
  from float64_between[OF wlo whi] dv[OF w(1)] have dlo: "1 / 2 ^ 62 \<le> \<bar>d w\<bar>" by auto
  have "(1 / 2 ^ 62) * (1 / 2 ^ 62) \<le> \<bar>d w\<bar> * \<bar>d w\<bar>"
    using dlo by (intro mult_mono) simp_all
  then have "1 / 2 ^ 124 \<le> d w * d w" by (simp add: abs_mult_self_eq)
  from float64_between_pos[OF this dd[OF w(1)]] sqv[OF w(1)] have sqlo: "1 / 2 ^ 124 \<le> sq w"
    by auto
  \<comment> \<open>the sum of the squares, the variance and the deviation\<close>
  have sqs: "\<forall>s \<in> set (map sq vs). 0 \<le> s \<and> s \<le> 2 ^ 26" using sqv by auto
  have "map sq vs \<noteq> []" and "length (map sq vs) \<le> 1024" using len by auto
  from fl_sum_squares[OF sqs this, of 124] obtain T where
    T: "fl_sum float64 (map Finite (map sq vs)) = Finite T" "0 \<le> T" "T \<le> 2 ^ 36"
       "(\<exists>s \<in> set (map sq vs). 1 / 2 ^ 124 \<le> s) \<longrightarrow> 1 / 2 ^ 124 \<le> T" by auto
  from T(4) w(1) sqlo have Tlo: "1 / 2 ^ 124 \<le> T" by auto
  have "T / real m \<le> T / 1" using T(2) m1 by (intro divide_left_mono) simp_all
  with T(3) have vhi: "T / real m \<le> 2 ^ 36" by simp
  have "(1 / 2 ^ 124) / 2 ^ 10 \<le> T / real m"
    using Tlo mpos m10 by (intro frac_le) simp_all
  then have vlo: "1 / 2 ^ 134 \<le> T / real m" by simp
  from float64_between_pos[OF vlo vhi] obtain V where
    V: "float64 (T / real m) = Finite V" "1 / 2 ^ 134 \<le> V" "V \<le> 2 ^ 36" by auto
  have "(0::real) < 1 / 2 ^ 134" by simp
  with V(2) have Vpos: "0 \<le> V" by linarith
  have e1: "((1::real) / 2 ^ 67)\<^sup>2 = 1 / 2 ^ 134" by (simp add: power_divide)
  have e2: "((2::real) ^ 18)\<^sup>2 = 2 ^ 36" by simp
  have "sqrt ((1 / 2 ^ 67)\<^sup>2) \<le> sqrt V" unfolding e1 using V(2) by (simp only: real_sqrt_le_iff)
  then have slo: "1 / 2 ^ 67 \<le> sqrt V" by simp
  have "sqrt V \<le> sqrt ((2 ^ 18)\<^sup>2)" unfolding e2 using V(3) by (simp only: real_sqrt_le_iff)
  then have shi: "sqrt V \<le> 2 ^ 18" by simp
  from float64_between_pos[OF slo shi] obtain \<sigma> where
    \<sigma>: "float64 (sqrt V) = Finite \<sigma>" "1 / 2 ^ 67 \<le> \<sigma>" by auto
  have "(0::real) < 1 / 2 ^ 67" by simp
  with \<sigma>(2) have \<sigma>pos: "0 < \<sigma>" by linarith
  have fm: "float64 (real m) = Finite (real m)"
    using len(2) by (intro float64_nat) (simp add: m_def)
  have std: "fl_std float64 xs = Finite \<sigma>"
    unfolding fl_std_def sqlist T(1) using fm mpos V(1) Vpos \<sigma>(1)
    by (simp add: xs_def m_def)
  \<comment> \<open>the quotients\<close>
  have quot: "\<exists>q. np_true_divide float64
                (np_subtract float64 (Finite (real_of_int v)) (Finite y)) (Finite \<sigma>) = Finite q"
    if "v \<in> set vs" for v
  proof -
    from dv[OF that] have "\<bar>d v\<bar> \<le> 2 ^ 13" by simp
    then have "\<bar>d v\<bar> / \<sigma> \<le> 2 ^ 13 / (1 / 2 ^ 67)"
      using \<sigma>(2) by (intro frac_le) simp_all
    then have "\<bar>d v / \<sigma>\<bar> \<le> 2 ^ 80" using \<sigma>pos by simp
    from float64_small[OF this] obtain q where "float64 (d v / \<sigma>) = Finite q" by auto
    with \<sigma>pos show ?thesis by (simp add: sub[OF that])
  qed
  from mean std \<sigma>pos quot show ?thesis unfolding xs_def by blast
qed

section \<open>Properties of the mean normalization\<close>

subsection \<open>Exact arithmetic\<close>

lemma exact_apply [simp]: "exact x = Finite x"
  by (simp add: exact_def)

lemma np_add_exact [simp]: "np_add exact (Finite a) (Finite b) = Finite (a + b)"
  by (simp add: exact_def)

lemma np_subtract_exact [simp]: "np_subtract exact (Finite a) (Finite b) = Finite (a - b)"
  by (simp add: np_subtract_def exact_def)

lemma np_multiply_exact [simp]: "np_multiply exact (Finite a) (Finite b) = Finite (a * b)"
  by (simp add: exact_def)

lemma np_true_divide_exact [simp]:
  "np_true_divide exact (Finite a) (Finite b) =
     (if b = 0 then (if a = 0 then NaN else if 0 < a then PosInf else NegInf)
      else Finite (a / b))"
  by (simp add: exact_def)

lemma np_sqrt_exact [simp]:
  "np_sqrt exact (Finite a) = (if a < 0 then NaN else Finite (sqrt a))"
  by (simp add: exact_def)

subsection \<open>The array operations on finite values\<close>

lemma map2_Finite:
  "map2 f (map Finite a) (map Finite b) = map2 (\<lambda>x y. f (Finite x) (Finite y)) a b"
  by (simp add: zip_map_map map_zip_map map_zip_map2 split_def)

lemma map2_np_add_Finite:
  "map2 (np_add exact) (map Finite a) (map Finite b) = map Finite (map2 (+) a b)"
  by (simp add: zip_map_map split_def)

lemma foldl_np_add_rows:
  "foldl (map2 (np_add exact)) (map Finite r) (map (map Finite) rs) = map Finite (foldl (map2 (+)) r rs)"
proof (induction rs arbitrary: r)
  case Nil
  show ?case by simp
next
  case (Cons a rs)
  have "foldl (map2 (np_add exact)) (map Finite r) (map (map Finite) (a # rs)) =
          foldl (map2 (np_add exact)) (map Finite (map2 (+) r a)) (map (map Finite) rs)"
    by (simp only: list.map foldl_Cons map2_np_add_Finite)
  then show ?case by (simp only: Cons.IH foldl_Cons)
qed

lemma foldl_add_rows:
  assumes "length r = n" and "\<forall>row \<in> set rs. length row = n"
  shows "foldl (map2 (+)) r rs = map (\<lambda>j. r ! j + sum_list (map (\<lambda>row. row ! j) rs)) [0..<n]"
  using assms
proof (induction rs arbitrary: r)
  case Nil
  then show ?case using map_nth[of r] by simp
next
  case (Cons a rs)
  have la: "length a = n" using Cons.prems by simp
  have "length (map2 (+) r a) = n" using Cons.prems by simp
  from Cons.IH[OF this] Cons.prems
  have "foldl (map2 (+)) (map2 (+) r a) rs =
          map (\<lambda>j. map2 (+) r a ! j + sum_list (map (\<lambda>row. row ! j) rs)) [0..<n]"
    by simp
  also have "\<dots> = map (\<lambda>j. r ! j + sum_list (map (\<lambda>row. row ! j) (a # rs))) [0..<n]"
    using Cons.prems(1) la by (intro map_cong) (simp_all add: add.assoc)
  finally show ?case by simp
qed

lemma sum_axis0_Finite:
  assumes "has_shape m n R" and "0 < m"
  shows "sum_axis0 exact (map (map Finite) R) =
           map (\<lambda>j. Finite (sum_list (map (\<lambda>row. row ! j) R))) [0..<n]"
proof -
  from assms obtain r rs where R: "R = r # rs" by (cases R) (auto simp: has_shape_def)
  from assms(1) have lr: "length r = n" and lrs: "\<forall>row \<in> set rs. length row = n"
    by (simp_all add: R has_shape_def list_all_iff)
  have "sum_axis0 exact (map (map Finite) R) = map Finite (foldl (map2 (+)) r rs)"
    by (simp add: R foldl_np_add_rows)
  also have "\<dots> = map (\<lambda>j. Finite (sum_list (map (\<lambda>row. row ! j) R))) [0..<n]"
    by (simp add: foldl_add_rows[OF lr lrs] R comp_def)
  finally show ?thesis .
qed

lemma mean_axis0_Finite:
  assumes "has_shape m n R" and "0 < m"
  shows "mean_axis0 exact (map (map Finite) R) = map (\<lambda>j. Finite (column_mean R j)) [0..<n]"
proof -
  from assms have "length R = m" by (simp add: has_shape_def)
  with assms(2) show ?thesis
    by (simp add: mean_axis0_def sum_axis0_Finite[OF assms] column_mean_def comp_def)
qed

lemma broadcast_Finite:
  "broadcast f (map (map Finite) R) (map Finite v) =
     map (\<lambda>row. map2 (\<lambda>x y. f (Finite x) (Finite y)) row v) R"
  by (simp add: broadcast_def map2_Finite comp_def)

lemma broadcast_subtract_Finite:
  "broadcast (np_subtract exact) (map (map Finite) R) (map Finite v) =
     map (map Finite) (map (\<lambda>row. map2 (-) row v) R)"
  by (simp add: broadcast_Finite np_subtract_def comp_def split_def)

lemma squares_Finite:
  "map (\<lambda>row. map2 (np_multiply exact) row row) (map (map Finite) R) =
     map (map Finite) (map (map (\<lambda>x. x * x)) R)"
  by (simp add: comp_def zip_same_conv_map)

lemma has_shape_map_rows:
  assumes "has_shape m n R" and "\<And>row. length row = n \<Longrightarrow> length (g row) = k"
  shows "has_shape m k (map g R)"
  using assms by (simp add: has_shape_def list_all_iff)

lemma column_of_map_rows:
  assumes "has_shape m n R" and "\<And>row. length row = n \<Longrightarrow> g row ! j = h (row ! j)"
  shows "map (\<lambda>row. row ! j) (map g R) = map (\<lambda>row. h (row ! j)) R"
  using assms by (simp add: has_shape_def list_all_iff)

lemma std_axis0_Finite:
  assumes "has_shape m n R" and "0 < m"
  shows "std_axis0 exact (map (map Finite) R) = map (\<lambda>j. Finite (column_std R j)) [0..<n]"
proof -
  define mu where "mu = map (column_mean R) [0..<n]"
  define S where "S = map (\<lambda>row. map (\<lambda>x. x * x) (map2 (-) row mu)) R"
  from assms(1) have lm: "length R = m" by (simp add: has_shape_def)
  have mean: "mean_axis0 exact (map (map Finite) R) = map Finite mu"
    by (simp add: mean_axis0_Finite[OF assms] mu_def comp_def)
  have shS: "has_shape m n S"
    unfolding S_def by (rule has_shape_map_rows[OF assms(1)]) (simp add: mu_def)
  have x2: "map (\<lambda>row. map2 (np_multiply exact) row row)
              (broadcast (np_subtract exact) (map (map Finite) R) (map Finite mu)) = map (map Finite) S"
    unfolding broadcast_subtract_Finite squares_Finite S_def by simp
  have col: "map (\<lambda>row. row ! j) S = map (\<lambda>row. (row ! j - column_mean R j)\<^sup>2) R"
    if "j < n" for j
    unfolding S_def using that
    by (intro column_of_map_rows[OF assms(1)]) (simp add: mu_def power2_eq_square)
  have "std_axis0 exact (map (map Finite) R) =
          map (np_sqrt exact) (map (\<lambda>s. np_true_divide exact s (Finite (real m))) (sum_axis0 exact (map (map Finite) S)))"
    by (simp add: std_axis0_def Let_def mean x2 lm)
  also have "\<dots> = map (\<lambda>j. np_sqrt exact (np_true_divide exact
                 (Finite (sum_list (map (\<lambda>row. row ! j) S))) (Finite (real m)))) [0..<n]"
    by (simp add: sum_axis0_Finite[OF shS assms(2)] comp_def)
  also have "\<dots> = map (\<lambda>j. Finite (column_std R j)) [0..<n]"
  proof (rule map_cong[OF refl])
    fix j assume "j \<in> set [0..<n]"
    then have j: "j < n" by simp
    have "0 \<le> sum_list (map (\<lambda>row. (row ! j - column_mean R j)\<^sup>2) R)"
      by (rule sum_list_nonneg) auto
    then have "\<not> sum_list (map (\<lambda>row. (row ! j - column_mean R j)\<^sup>2) R) / real m < 0"
      using assms(2) by (simp add: divide_less_0_iff)
    with assms(2) show "np_sqrt exact (np_true_divide exact (Finite (sum_list (map (\<lambda>row. row ! j) S)))
            (Finite (real m))) = Finite (column_std R j)"
      by (simp add: col[OF j] column_std_def lm)
  qed
  finally show ?thesis .
qed

lemma has_shape_reals: "has_shape m n X \<Longrightarrow> has_shape m n (map (map real_of_int) X)"
  by (simp add: has_shape_def list_all_iff)

lemma astype_float_reals: "astype_float exact X = map (map Finite) (map (map real_of_int) X)"
  by (simp add: astype_float_def comp_def)

lemma ave_cols_eq:
  assumes "has_shape m n X" and "0 < m"
  shows "ave_cols exact X = map (\<lambda>j. Finite (spec_mu X j)) [0..<n]"
  unfolding ave_cols_def astype_float_reals spec_mu_def
  by (rule mean_axis0_Finite[OF has_shape_reals[OF assms(1)] assms(2)])

lemma std_cols_eq:
  assumes "has_shape m n X" and "0 < m"
  shows "std_cols exact X = map (\<lambda>j. Finite (spec_sigma X j)) [0..<n]"
  unfolding std_cols_def astype_float_reals spec_sigma_def
  by (rule std_axis0_Finite[OF has_shape_reals[OF assms(1)] assms(2)])

lemma X_norm_eq:
  assumes "has_shape m n X" and "0 < m"
  shows "X_norm exact X =
           map (\<lambda>row. map2 (\<lambda>x s. np_true_divide exact (Finite x) (Finite s))
                  (map2 (-) (map real_of_int row) (map (spec_mu X) [0..<n]))
                  (map (spec_sigma X) [0..<n])) X"
proof -
  have a: "ave_cols exact X = map Finite (map (spec_mu X) [0..<n])"
    by (simp add: ave_cols_eq[OF assms] comp_def)
  have s: "std_cols exact X = map Finite (map (spec_sigma X) [0..<n])"
    by (simp add: std_cols_eq[OF assms] comp_def)
  have "broadcast (np_subtract exact) (astype_float exact X) (ave_cols exact X) =
          map (map Finite)
            (map (\<lambda>row. map2 (-) (map real_of_int row) (map (spec_mu X) [0..<n])) X)"
    unfolding a astype_float_reals broadcast_subtract_Finite by (simp add: comp_def)
  then have "X_norm exact X =
          broadcast (np_true_divide exact)
            (map (map Finite)
              (map (\<lambda>row. map2 (-) (map real_of_int row) (map (spec_mu X) [0..<n])) X))
            (map Finite (map (spec_sigma X) [0..<n]))"
    by (simp only: X_norm_def s)
  also have "\<dots> = map (\<lambda>row. map2 (\<lambda>x s. np_true_divide exact (Finite x) (Finite s))
                  (map2 (-) (map real_of_int row) (map (spec_mu X) [0..<n]))
                  (map (spec_sigma X) [0..<n])) X"
    unfolding broadcast_Finite by (simp add: comp_def)
  finally show ?thesis .
qed

lemma X_norm_nth:
  assumes "has_shape m n X" and "0 < m" and "i < m" and "j < n"
  shows "X_norm exact X ! i ! j =
           np_true_divide exact (Finite (real_of_int (X ! i ! j) - spec_mu X j)) (Finite (spec_sigma X j))"
proof -
  from assms(1,3) have "length (X ! i) = n" and "i < length X"
    by (simp_all add: has_shape_def list_all_length)
  with assms(4) show ?thesis by (simp add: X_norm_eq[OF assms(1,2)])
qed

lemma has_shape_X_norm:
  assumes "has_shape m n X" and "0 < m"
  shows "has_shape m n (X_norm exact X)"
  using assms(1) by (simp add: X_norm_eq[OF assms] has_shape_def list_all_iff)

subsection \<open>Zero standard deviation\<close>

lemma nth_reals:
  assumes "has_shape m n X" and "i < m" and "j < n"
  shows "map (map real_of_int) X ! i ! j = real_of_int (X ! i ! j)"
proof -
  from assms(1,2) have "length (X ! i) = n" and "i < length X"
    by (simp_all add: has_shape_def list_all_length)
  with assms(3) show ?thesis by simp
qed

lemma column_std_zero_iff:
  assumes "has_shape m n R" and "0 < m"
  shows "column_std R j = 0 \<longleftrightarrow> (\<forall>i<m. R ! i ! j = column_mean R j)"
proof -
  from assms(1) have lm: "length R = m" by (simp add: has_shape_def)
  have "column_std R j = 0 \<longleftrightarrow>
          sum_list (map (\<lambda>row. (row ! j - column_mean R j)\<^sup>2) R) = 0"
    using assms(2) by (simp add: column_std_def lm)
  also have "\<dots> \<longleftrightarrow> (\<forall>x \<in> set (map (\<lambda>row. (row ! j - column_mean R j)\<^sup>2) R). x = 0)"
    by (rule sum_list_nonneg_eq_0_iff) auto
  also have "\<dots> \<longleftrightarrow> (\<forall>row \<in> set R. row ! j = column_mean R j)"
    by simp
  also have "\<dots> \<longleftrightarrow> (\<forall>i<m. R ! i ! j = column_mean R j)"
    by (simp add: all_set_conv_all_nth lm)
  finally show ?thesis .
qed

lemma column_mean_constant:
  assumes "length R = m" and "0 < m" and "\<forall>i<m. R ! i ! j = c"
  shows "column_mean R j = c"
proof -
  from assms(1,3) have "\<forall>row \<in> set R. row ! j = c" by (simp add: all_set_conv_all_nth)
  then have "map (\<lambda>row. row ! j) R = map (\<lambda>row. c) R" by (intro map_cong) simp_all
  then have "sum_list (map (\<lambda>row. row ! j) R) = real m * c"
    by (simp add: map_replicate_const sum_list_replicate assms(1))
  with assms(2) show ?thesis by (simp add: column_mean_def assms(1))
qed

lemma column_std_zero_iff_equal:
  assumes "has_shape m n R" and "0 < m"
  shows "column_std R j = 0 \<longleftrightarrow> (\<forall>i<m. \<forall>i'<m. R ! i ! j = R ! i' ! j)"
proof
  assume "column_std R j = 0"
  then have "\<forall>i<m. R ! i ! j = column_mean R j"
    by (simp only: column_std_zero_iff[OF assms])
  then show "\<forall>i<m. \<forall>i'<m. R ! i ! j = R ! i' ! j" by metis
next
  assume eq: "\<forall>i<m. \<forall>i'<m. R ! i ! j = R ! i' ! j"
  from assms(1) have lm: "length R = m" by (simp add: has_shape_def)
  define c where "c = R ! 0 ! j"
  from eq assms(2) have all: "\<forall>i<m. R ! i ! j = c" unfolding c_def by blast
  from column_mean_constant[OF lm assms(2) all] have "column_mean R j = c" .
  with all have "\<forall>i<m. R ! i ! j = column_mean R j" by simp
  then show "column_std R j = 0" by (simp only: column_std_zero_iff[OF assms])
qed

lemma spec_sigma_zero_iff:
  assumes "has_shape m n X" and "0 < m" and "j < n"
  shows "spec_sigma X j = 0 \<longleftrightarrow> (\<forall>i<m. \<forall>i'<m. X ! i ! j = X ! i' ! j)"
  unfolding spec_sigma_def column_std_zero_iff_equal[OF has_shape_reals[OF assms(1)] assms(2)]
  using assms(3) by (simp add: nth_reals[OF assms(1)])

lemma std_cols_nth:
  assumes "has_shape m n X" and "0 < m" and "j < n"
  shows "std_cols exact X ! j = Finite (spec_sigma X j)"
  using assms(3) by (simp add: std_cols_eq[OF assms(1,2)])

lemma ave_cols_nth:
  assumes "has_shape m n X" and "0 < m" and "j < n"
  shows "ave_cols exact X ! j = Finite (spec_mu X j)"
  using assms(3) by (simp add: ave_cols_eq[OF assms(1,2)])

lemma X_norm_nan:
  assumes "has_shape m n X" and "0 < m" and "i < m" and "j < n" and "spec_sigma X j = 0"
  shows "X_norm exact X ! i ! j = NaN"
proof -
  from assms(5) have "\<forall>i<m. map (map real_of_int) X ! i ! j = spec_mu X j"
    unfolding spec_sigma_def spec_mu_def
    by (simp add: column_std_zero_iff[OF has_shape_reals[OF assms(1)] assms(2)])
  with assms(3,4) have "real_of_int (X ! i ! j) = spec_mu X j"
    by (simp add: nth_reals[OF assms(1)])
  with assms(5) show ?thesis by (simp add: X_norm_nth[OF assms(1-4)])
qed

lemma X_norm_finite:
  assumes "has_shape m n X" and "0 < m" and "\<forall>j<n. spec_sigma X j \<noteq> 0"
  shows "list_all (list_all np_isfinite) (X_norm exact X)"
proof -
  from has_shape_X_norm[OF assms(1,2)] have
    len: "length (X_norm exact X) = m" and rows: "\<forall>i<m. length (X_norm exact X ! i) = n"
    by (simp_all add: has_shape_def list_all_length)
  have "np_isfinite (X_norm exact X ! i ! j)" if "i < m" and "j < n" for i j
    using assms(3) that by (simp add: X_norm_nth[OF assms(1,2) that])
  with len rows show ?thesis by (simp add: list_all_length)
qed

subsection \<open>The sample array\<close>

lemma two_level_shape: "has_shape 1000 20 two_level"
  by (simp add: has_shape_def list_all_iff)

lemma two_level_mu: "j < 20 \<Longrightarrow> spec_mu two_level j = 3"
  by (simp add: spec_mu_def column_mean_def sum_list_replicate)

lemma two_level_sigma: "j < 20 \<Longrightarrow> spec_sigma two_level j = 2"
  by (simp add: spec_sigma_def column_std_def column_mean_def sum_list_replicate)

lemma two_level_std_cols: "\<forall>j<20. std_cols exact two_level ! j \<noteq> Finite 0"
  by (simp add: std_cols_nth[OF two_level_shape] two_level_sigma)

subsection \<open>The normalized columns\<close>

lemma map2_divide_Finite:
  assumes "\<forall>s \<in> set sg. s \<noteq> 0"
  shows "map2 (\<lambda>x s. np_true_divide exact (Finite x) (Finite s)) d sg = map Finite (map2 (/) d sg)"
proof -
  have "map2 (\<lambda>x s. np_true_divide exact (Finite x) (Finite s)) d sg =
          map (\<lambda>(x, s). Finite (x / s)) (zip d sg)"
    using assms by (intro map_cong) (auto dest: set_zip_rightD)
  then show ?thesis by (simp add: comp_def split_def)
qed

lemma sum_list_shift_scale:
  "sum_list (map (\<lambda>x. (f x - c) / d) xs) =
     (sum_list (map f xs) - real (length xs) * c) / (d::real)"
  by (induction xs) (simp_all add: diff_divide_distrib add_divide_distrib algebra_simps)

lemma sum_list_scale_squares:
  "sum_list (map (\<lambda>x. ((f x - c) / d)\<^sup>2) xs) =
     sum_list (map (\<lambda>x. (f x - c)\<^sup>2) xs) / (d::real)\<^sup>2"
  by (induction xs) (simp_all add: power_divide add_divide_distrib)

lemma sum_list_sum_commute:
  fixes g :: "'a \<Rightarrow> 'b \<Rightarrow> real"
  shows "sum_list (map (\<lambda>x. \<Sum>j\<in>A. g x j) xs) = (\<Sum>j\<in>A. sum_list (map (\<lambda>x. g x j) xs))"
  by (induction xs) (simp_all add: sum.distrib)

lemma sum_list_concat_columns:
  fixes Y :: "real list list"
  assumes "has_shape m n Y"
  shows "sum_list (concat Y) = (\<Sum>j<n. sum_list (map (\<lambda>row. row ! j) Y))"
proof -
  from assms have rows: "\<forall>row \<in> set Y. length row = n"
    by (simp add: has_shape_def list_all_iff)
  have "sum_list (concat Y) = sum_list (map sum_list Y)" by (induction Y) simp_all
  also have "map sum_list Y = map (\<lambda>row. \<Sum>j<n. row ! j) Y"
    using rows by (intro map_cong) (simp_all add: sum_list_sum_nth atLeast0LessThan)
  also have "sum_list \<dots> = (\<Sum>j<n. sum_list (map (\<lambda>row. row ! j) Y))"
    by (rule sum_list_sum_commute)
  finally show ?thesis .
qed

lemma length_concat_shape: "has_shape m n Y \<Longrightarrow> length (concat Y) = m * n"
proof -
  assume "has_shape m n Y"
  then have "length Y = m" and "\<forall>row \<in> set Y. length row = n"
    by (simp_all add: has_shape_def list_all_iff)
  then have "map length Y = replicate m n"
    by (metis map_replicate_const map_eq_conv)
  then show ?thesis by (simp add: length_concat sum_list_replicate)
qed

lemma foldl_np_add_Finite:
  "foldl (np_add exact) (Finite a) (map Finite xs) = Finite (a + sum_list xs)"
  by (induction xs arbitrary: a) (simp_all add: add.assoc)

lemma mean_all_Finite:
  assumes "has_shape m n Y" and "0 < m" and "0 < n"
  shows "mean_all (map (map Finite) Y) = Finite (sum_list (concat Y) / real (m * n))"
proof -
  have c: "concat (map (map Finite) Y) = map Finite (concat Y)" by (simp add: map_concat)
  from assms(2,3) have "real (m * n) \<noteq> 0" by simp
  then show ?thesis
    unfolding mean_all_def c foldl_np_add_Finite
    by (simp add: length_concat_shape[OF assms(1)])
qed

lemma normalized_reals:
  fixes R :: "real list list"
  assumes sh: "has_shape m n R" and m: "0 < m" and nz: "\<forall>j<n. column_std R j \<noteq> 0"
  defines "Y \<equiv> map (\<lambda>row. map2 (/) (map2 (-) row (map (column_mean R) [0..<n]))
                         (map (column_std R) [0..<n])) R"
  shows "has_shape m n Y \<and> (\<forall>j<n. column_mean Y j = 0) \<and> (\<forall>j<n. column_std Y j = 1)"
proof -
  from sh have lm: "length R = m" by (simp add: has_shape_def)
  have shY: "has_shape m n Y"
    unfolding Y_def by (rule has_shape_map_rows[OF sh]) simp
  then have lY: "length Y = m" by (simp add: has_shape_def)
  have col: "map (\<lambda>row. row ! j) Y =
               map (\<lambda>row. (row ! j - column_mean R j) / column_std R j) R" if "j < n" for j
    unfolding Y_def using that by (intro column_of_map_rows[OF sh]) simp
  have mean0: "column_mean Y j = 0" if "j < n" for j
  proof -
    have "sum_list (map (\<lambda>row. row ! j) R) = real m * column_mean R j"
      using m by (simp add: column_mean_def lm)
    then show ?thesis
      by (simp add: column_mean_def[of Y] col[OF that] sum_list_shift_scale lm)
  qed
  have std1: "column_std Y j = 1" if "j < n" for j
  proof -
    define Q where "Q = sum_list (map (\<lambda>row. (row ! j - column_mean R j)\<^sup>2) R)"
    have "0 \<le> Q" unfolding Q_def by (rule sum_list_nonneg) auto
    then have "0 \<le> Q / real m" by simp
    then have s2: "(column_std R j)\<^sup>2 = Q / real m"
      by (simp add: column_std_def Q_def lm)
    from nz that have "column_std R j \<noteq> 0" by simp
    with s2 have Qnz: "Q \<noteq> 0" by auto
    have "map (\<lambda>row. (row ! j)\<^sup>2) Y = map (\<lambda>x. x\<^sup>2) (map (\<lambda>row. row ! j) Y)" by simp
    also have "\<dots> = map (\<lambda>row. ((row ! j - column_mean R j) / column_std R j)\<^sup>2) R"
      by (simp add: col[OF that])
    finally have "sum_list (map (\<lambda>row. (row ! j)\<^sup>2) Y) = Q / (column_std R j)\<^sup>2"
      by (simp add: sum_list_scale_squares Q_def)
    also have "\<dots> = real m" using Qnz m by (simp add: s2)
    finally have "sum_list (map (\<lambda>row. (row ! j - column_mean Y j)\<^sup>2) Y) = real m"
      by (simp add: mean0[OF that])
    with m show ?thesis by (simp add: column_std_def[of Y] lY)
  qed
  from shY mean0 std1 show ?thesis by blast
qed

lemma X_norm_Finite:
  assumes "has_shape m n X" and "0 < m" and "\<forall>j<n. spec_sigma X j \<noteq> 0"
  shows "X_norm exact X =
           map (map Finite)
             (map (\<lambda>row. map2 (/) (map2 (-) row (map (column_mean (map (map real_of_int) X)) [0..<n]))
                     (map (column_std (map (map real_of_int) X)) [0..<n]))
                (map (map real_of_int) X))"
proof -
  have mu: "spec_mu X = column_mean (map (map real_of_int) X)"
    by (rule ext) (simp add: spec_mu_def)
  have sg: "spec_sigma X = column_std (map (map real_of_int) X)"
    by (rule ext) (simp add: spec_sigma_def)
  from assms(3) have "\<forall>s \<in> set (map (spec_sigma X) [0..<n]). s \<noteq> 0" by simp
  note d = map2_divide_Finite[OF this]
  show ?thesis
    unfolding X_norm_eq[OF assms(1,2)] d by (simp add: mu sg comp_def)
qed


subsection \<open>The array operations act column by column\<close>

lemma foldl_map2_column:
  assumes "length acc = n" and "\<forall>row \<in> set rows. length row = n"
  shows "length (foldl (map2 f) acc rows) = n \<and>
         (\<forall>j<n. foldl (map2 f) acc rows ! j = foldl f (acc ! j) (map (\<lambda>row. row ! j) rows))"
  using assms
proof (induction rows arbitrary: acc)
  case Nil
  then show ?case by simp
next
  case (Cons a rows)
  from Cons.prems have la: "length a = n" by simp
  with Cons.prems(1) have l: "length (map2 f acc a) = n" by simp
  from Cons.prems(2) have rest: "\<forall>row \<in> set rows. length row = n" by simp
  from Cons.IH[OF l rest] Cons.prems(1) la show ?case by simp
qed

lemma sum_axis0_column:
  assumes "has_shape m n A" and "0 < m"
  shows "length (sum_axis0 r A) = n \<and>
         (\<forall>j<n. sum_axis0 r A ! j = fl_sum r (map (\<lambda>row. row ! j) A))"
proof -
  from assms obtain a rows where A: "A = a # rows" by (cases A) (auto simp: has_shape_def)
  from assms(1) have "length a = n" and "\<forall>row \<in> set rows. length row = n"
    by (simp_all add: A has_shape_def list_all_iff)
  from foldl_map2_column[OF this, of "np_add r"] show ?thesis by (simp add: A)
qed

lemma mean_axis0_column:
  assumes "has_shape m n A" and "0 < m"
  shows "length (mean_axis0 r A) = n \<and>
         (\<forall>j<n. mean_axis0 r A ! j = fl_mean r (map (\<lambda>row. row ! j) A))"
  using sum_axis0_column[OF assms, of r] by (simp add: mean_axis0_def fl_mean_def)

lemma broadcast_shape:
  assumes "has_shape m n A" and "length v = n"
  shows "has_shape m n (broadcast f A v)"
  using assms by (simp add: broadcast_def has_shape_def list_all_iff)

lemma broadcast_entry:
  assumes "has_shape m n A" and "length v = n" and "i < m" and "j < n"
  shows "broadcast f A v ! i ! j = f (A ! i ! j) (v ! j)"
proof -
  from assms(1,3) have "i < length A" and "length (A ! i) = n"
    by (simp_all add: has_shape_def list_all_length)
  with assms(2,4) show ?thesis by (simp add: broadcast_def)
qed

lemma broadcast_column:
  assumes "has_shape m n A" and "length v = n" and "j < n"
  shows "map (\<lambda>row. row ! j) (broadcast f A v) = map (\<lambda>row. f (row ! j) (v ! j)) A"
  using assms by (simp add: broadcast_def has_shape_def list_all_iff)

lemma std_axis0_column:
  assumes "has_shape m n A" and "0 < m"
  shows "length (std_axis0 r A) = n \<and>
         (\<forall>j<n. std_axis0 r A ! j = fl_std r (map (\<lambda>row. row ! j) A))"
proof -
  define mean where "mean = mean_axis0 r A"
  define x2 where "x2 = map (\<lambda>row. map2 (np_multiply r) row row)
                           (broadcast (np_subtract r) A mean)"
  from assms(1) have rows: "\<forall>row \<in> set A. length row = n" and lA: "length A = m"
    by (simp_all add: has_shape_def list_all_iff)
  from mean_axis0_column[OF assms, of r] have lmean: "length mean = n"
    and mean: "\<forall>j<n. mean ! j = fl_mean r (map (\<lambda>row. row ! j) A)"
    by (simp_all add: mean_def)
  have sh: "has_shape m n x2"
    unfolding x2_def broadcast_def using rows lA lmean
    by (simp add: has_shape_def list_all_iff)
  have col: "map (\<lambda>row. row ! j) x2 =
      map (\<lambda>x. np_multiply r (np_subtract r x (fl_mean r (map (\<lambda>row. row ! j) A)))
                             (np_subtract r x (fl_mean r (map (\<lambda>row. row ! j) A))))
          (map (\<lambda>row. row ! j) A)" if "j < n" for j
    unfolding x2_def broadcast_def using rows lmean that mean
    by (simp add: zip_same_conv_map)
  have std: "std_axis0 r A =
          map (np_sqrt r) (map (\<lambda>s. np_true_divide r s (r (real m))) (sum_axis0 r x2))"
    by (simp add: std_axis0_def Let_def x2_def mean_def lA)
  from sum_axis0_column[OF sh assms(2), of r] have ls: "length (sum_axis0 r x2) = n"
    and s: "\<forall>j<n. sum_axis0 r x2 ! j = fl_sum r (map (\<lambda>row. row ! j) x2)" by simp_all
  have "std_axis0 r A ! j = fl_std r (map (\<lambda>row. row ! j) A)" if "j < n" for j
    using that ls s by (simp add: std col[OF that] fl_std_def lA)
  moreover have "length (std_axis0 r A) = n" by (simp add: std ls)
  ultimately show ?thesis by blast
qed

lemma astype_float_shape: "has_shape m n X \<Longrightarrow> has_shape m n (astype_float r X)"
  by (simp add: astype_float_def has_shape_def list_all_iff)

lemma astype_float_column:
  assumes "has_shape m n X" and "j < n"
  shows "map (\<lambda>row. row ! j) (astype_float r X) = float_column r X j"
  using assms by (simp add: astype_float_def float_column_def has_shape_def list_all_iff)

lemma astype_float_entry:
  assumes "has_shape m n X" and "i < m" and "j < n"
  shows "astype_float r X ! i ! j = r (real_of_int (X ! i ! j))"
proof -
  from assms(1,2) have "i < length X" and "length (X ! i) = n"
    by (simp_all add: has_shape_def list_all_length)
  with assms(3) show ?thesis by (simp add: astype_float_def)
qed

lemma ave_cols_column:
  assumes "has_shape m n X" and "0 < m"
  shows "length (ave_cols r X) = n \<and>
         (\<forall>j<n. ave_cols r X ! j = fl_mean r (float_column r X j))"
  using mean_axis0_column[OF astype_float_shape[OF assms(1)] assms(2), of r r]
    astype_float_column[OF assms(1), of _ r]
  by (simp add: ave_cols_def)

lemma std_cols_column:
  assumes "has_shape m n X" and "0 < m"
  shows "length (std_cols r X) = n \<and>
         (\<forall>j<n. std_cols r X ! j = fl_std r (float_column r X j))"
  using std_axis0_column[OF astype_float_shape[OF assms(1)] assms(2), of r r]
    astype_float_column[OF assms(1), of _ r]
  by (simp add: std_cols_def)

lemma X_norm_entry:
  assumes "has_shape m n X" and "0 < m" and "i < m" and "j < n"
  shows "X_norm r X ! i ! j =
           np_true_divide r
             (np_subtract r (r (real_of_int (X ! i ! j))) (ave_cols r X ! j))
             (std_cols r X ! j)"
proof -
  from ave_cols_column[OF assms(1,2), of r] have la: "length (ave_cols r X) = n" by simp
  from std_cols_column[OF assms(1,2), of r] have ls: "length (std_cols r X) = n" by simp
  note shA = astype_float_shape[OF assms(1), of r]
  note shD = broadcast_shape[OF shA la, of "np_subtract r"]
  show ?thesis
    unfolding X_norm_def
    by (simp add: broadcast_entry[OF shD ls assms(3,4)] broadcast_entry[OF shA la assms(3,4)]
        astype_float_entry[OF assms(1,3,4)])
qed

lemma X_norm_shape:
  assumes "has_shape m n X" and "0 < m"
  shows "has_shape m n (X_norm r X)"
proof -
  from ave_cols_column[OF assms, of r] have la: "length (ave_cols r X) = n" by simp
  from std_cols_column[OF assms, of r] have ls: "length (std_cols r X) = n" by simp
  show ?thesis
    unfolding X_norm_def
    by (intro broadcast_shape astype_float_shape assms(1) la ls)
qed

subsection \<open>Division by zero\<close>

lemma randint_column:
  assumes "is_randint 0 5001 m n X" and "j < n"
  shows "float_column float64 X j = map (\<lambda>v. Finite (real_of_int v)) (map (\<lambda>row. row ! j) X)"
    and "\<forall>v \<in> set (map (\<lambda>row. row ! j) X). 0 \<le> v \<and> v \<le> 5000"
    and "length (map (\<lambda>row. row ! j) X) = m"
proof -
  from assms(1) have sh: "has_shape m n X"
    and rng: "\<forall>row \<in> set X. \<forall>v \<in> set row. 0 \<le> v \<and> v < 5001"
    by (simp_all add: is_randint_def list_all_iff)
  from sh have rows: "\<forall>row \<in> set X. length row = n" and lX: "length X = m"
    by (simp_all add: has_shape_def list_all_iff)
  have ent: "0 \<le> row ! j \<and> row ! j \<le> 5000" if "row \<in> set X" for row
  proof -
    from rows that assms(2) have "row ! j \<in> set row" by simp
    with rng that show ?thesis by fastforce
  qed
  then show "\<forall>v \<in> set (map (\<lambda>row. row ! j) X). 0 \<le> v \<and> v \<le> 5000" by auto
  have "float64 (real_of_int (row ! j)) = Finite (real_of_int (row ! j))" if "row \<in> set X" for row
    using ent[OF that] by (intro float64_int) simp
  then show "float_column float64 X j =
      map (\<lambda>v. Finite (real_of_int v)) (map (\<lambda>row. row ! j) X)"
    by (simp add: float_column_def)
  show "length (map (\<lambda>row. row ! j) X) = m" by (simp add: lX)
qed

lemma randint_entry:
  assumes "is_randint 0 5001 m n X" and "i < m" and "j < n"
  shows "float64 (real_of_int (X ! i ! j)) = Finite (real_of_int (X ! i ! j))"
    and "X ! i ! j \<in> set (map (\<lambda>row. row ! j) X)"
proof -
  from assms(1) have "length X = m" by (simp add: is_randint_def has_shape_def)
  with assms(2) show in_col: "X ! i ! j \<in> set (map (\<lambda>row. row ! j) X)" by auto
  with randint_column(2)[OF assms(1,3)] have "0 \<le> X ! i ! j \<and> X ! i ! j \<le> 5000" by blast
  then show "float64 (real_of_int (X ! i ! j)) = Finite (real_of_int (X ! i ! j))"
    by (intro float64_int) simp
qed

lemma float64_constant_column:
  assumes X: "is_randint 0 5001 m n X" and m: "0 < m" "m \<le> 1024" and j: "j < n"
    and const: "\<forall>i<m. \<forall>i'<m. X ! i ! j = X ! i' ! j"
  shows "std_cols float64 X ! j = Finite 0 \<and> (\<forall>i<m. X_norm float64 X ! i ! j = NaN)"
proof -
  from X have sh: "has_shape m n X" by (simp add: is_randint_def)
  then have lX: "length X = m" by (simp add: has_shape_def)
  define v where "v = X ! 0 ! j"
  from const m(1) have all: "\<forall>i<m. X ! i ! j = v" unfolding v_def by blast
  then have col: "map (\<lambda>row. row ! j) X = replicate m v"
    by (simp add: list_eq_iff_nth_eq lX)
  from randint_column(2)[OF X j] m(1) have v: "0 \<le> v" "v \<le> 5000" by (simp_all add: col)
  note cc = constant_column[OF v m, unfolded map_replicate]
  from std_cols_column[OF sh m(1), of float64] j
  have std: "std_cols float64 X ! j = Finite 0"
    by (simp add: randint_column(1)[OF X j] col cc(2))
  from ave_cols_column[OF sh m(1), of float64] j
  have ave: "ave_cols float64 X ! j = Finite (real_of_int v)"
    by (simp add: randint_column(1)[OF X j] col cc(1))
  have "X_norm float64 X ! i ! j = NaN" if "i < m" for i
  proof -
    from all that have x: "X ! i ! j = v" by simp
    from randint_entry(1)[OF X that j] have "float64 (real_of_int v) = Finite (real_of_int v)"
      by (simp add: x)
    then show ?thesis
      by (simp add: X_norm_entry[OF sh m(1) that j] std ave x np_subtract_def float64_zero)
  qed
  with std show ?thesis by blast
qed

lemma float64_nonconstant_column:
  assumes X: "is_randint 0 5001 m n X" and m: "0 < m" "m \<le> 1024" and j: "j < n"
    and nc: "i1 < m" "i2 < m" "X ! i1 ! j \<noteq> X ! i2 ! j"
  shows "std_cols float64 X ! j \<noteq> Finite 0 \<and> (\<forall>i<m. np_isfinite (X_norm float64 X ! i ! j))"
proof -
  from X have sh: "has_shape m n X" by (simp add: is_randint_def)
  note col = randint_column[OF X j]
  from col(3) m have len: "0 < length (map (\<lambda>row. row ! j) X)"
    "length (map (\<lambda>row. row ! j) X) \<le> 1024" by simp_all
  from nonconstant_column[OF col(2) len randint_entry(2)[OF X nc(1) j]
      randint_entry(2)[OF X nc(2) j] nc(3)]
  obtain y \<sigma> where
    mean: "fl_mean float64 (float_column float64 X j) = Finite y" and
    std: "fl_std float64 (float_column float64 X j) = Finite \<sigma>" and pos: "0 < \<sigma>" and
    quot: "\<forall>v \<in> set (map (\<lambda>row. row ! j) X). \<exists>q.
              np_true_divide float64
                (np_subtract float64 (Finite (real_of_int v)) (Finite y)) (Finite \<sigma>) = Finite q"
    unfolding col(1) by blast
  from std_cols_column[OF sh m(1), of float64] j std
  have s: "std_cols float64 X ! j = Finite \<sigma>" by simp
  from ave_cols_column[OF sh m(1), of float64] j mean
  have a: "ave_cols float64 X ! j = Finite y" by simp
  have "np_isfinite (X_norm float64 X ! i ! j)" if "i < m" for i
  proof -
    from quot randint_entry(2)[OF X that j] obtain q where
      "np_true_divide float64
         (np_subtract float64 (Finite (real_of_int (X ! i ! j))) (Finite y)) (Finite \<sigma>) = Finite q"
      by blast
    then show ?thesis
      by (simp add: X_norm_entry[OF sh m(1) that j] s a randint_entry(1)[OF X that j])
  qed
  with s pos show ?thesis by simp
qed

lemma randint_sigma_zero_iff:
  assumes X: "is_randint 0 5001 m n X" and m: "0 < m" and j: "j < n"
  shows "spec_sigma X j = 0 \<longleftrightarrow> (\<forall>i<m. \<forall>i'<m. X ! i ! j = X ! i' ! j)"
proof -
  from X have sh: "has_shape m n X" by (simp add: is_randint_def)
  show ?thesis by (rule spec_sigma_zero_iff[OF sh m j])
qed


section \<open>The formula of the normalization\<close>

lemma two_level_randint: "is_randint 0 5001 1000 20 two_level"
  by (simp add: is_randint_def has_shape_def list_all_iff)

lemma tenth_ones_randint: "is_randint 0 5001 1000 20 tenth_ones"
  by (simp add: is_randint_def has_shape_def list_all_iff)

lemma tenth_ones_shape: "has_shape 1000 20 tenth_ones"
  by (simp add: has_shape_def list_all_iff)

lemma tenth_ones_mu: "j < 20 \<Longrightarrow> spec_mu tenth_ones j = 1 / 10"
  by (simp add: spec_mu_def column_mean_def sum_list_replicate)

lemma tenth_ones_sigma: "j < 20 \<Longrightarrow> spec_sigma tenth_ones j = 3 / 10"
proof -
  assume j: "j < 20"
  have "sqrt ((3 / 10)\<^sup>2) = (3 / 10 :: real)" by simp
  moreover have "((3 / 10)\<^sup>2 :: real) = 9 / 100" by (simp add: power2_eq_square)
  ultimately have s: "sqrt (9 / 100) = (3 / 10 :: real)" by simp
  have "spec_sigma tenth_ones j = sqrt (9 / 100)"
    using j by (simp add: spec_sigma_def column_std_def column_mean_def sum_list_replicate
        power2_eq_square)
  with s show ?thesis by simp
qed

lemma pow2_mod3: "(2::int) ^ n mod 3 = 1 \<or> (2::int) ^ n mod 3 = 2"
proof (induction n)
  case 0
  show ?case by simp
next
  case (Suc n)
  have "(2::int) ^ Suc n mod 3 = (2 * (2 ^ n mod 3)) mod 3"
    by (simp add: mod_mult_right_eq)
  with Suc show ?case by auto
qed

lemma three_not_dvd_pow2: "\<not> (3::int) dvd 2 ^ n"
  using pow2_mod3[of n] by (auto simp: dvd_eq_mod_eq_0)

lemma pow2_mod5:
  "(2::int) ^ n mod 5 = 1 \<or> (2::int) ^ n mod 5 = 2 \<or> (2::int) ^ n mod 5 = 3 \<or>
   (2::int) ^ n mod 5 = 4"
proof (induction n)
  case 0
  show ?case by simp
next
  case (Suc n)
  have "(2::int) ^ Suc n mod 5 = (2 * (2 ^ n mod 5)) mod 5"
    by (simp add: mod_mult_right_eq)
  with Suc show ?case by auto
qed

lemma five_not_dvd_pow2:
  assumes "c = 1 \<or> c = 3"
  shows "\<not> (5::int) dvd c * 2 ^ n"
proof -
  have "(c * 2 ^ n) mod 5 = (c * (2 ^ n mod 5)) mod 5" by (simp add: mod_mult_right_eq)
  with assms pow2_mod5[of n] have "(c * 2 ^ n) mod 5 \<noteq> 0" by auto
  then show ?thesis by (simp add: dvd_eq_mod_eq_0)
qed

text \<open>
  A float is an integer times a power of two; \<open>-1/3\<close>, \<open>1/10\<close> and \<open>3/10\<close> are not.
\<close>

lemma tenths_not_dyadic:
  assumes c: "c = 1 \<or> c = 3"
  shows "real_of_int z * 2 powr real_of_int k \<noteq> real_of_int c / 10"
proof
  assume eq: "real_of_int z * 2 powr real_of_int k = real_of_int c / 10"
  show False
  proof (cases "0 \<le> k")
    case True
    from eq have "real_of_int (10 * (z * 2 ^ nat k)) = real_of_int c"
      by (simp add: pow2_int[OF True])
    then have "10 * (z * 2 ^ nat k) = c" by (simp only: of_int_eq_iff)
    with c show False by presburger
  next
    case False
    then have k: "k = - int (nat (- k))" by simp
    have "2 powr real_of_int k = 1 / 2 ^ nat (- k)"
      by (subst k) (rule pow2_neg)
    with eq have "real_of_int z / 2 ^ nat (- k) = real_of_int c / 10" by simp
    then have "real_of_int (10 * z) = real_of_int (c * 2 ^ nat (- k))"
      by (simp add: field_simps)
    then have "10 * z = c * 2 ^ nat (- k)" by (simp only: of_int_eq_iff)
    then have "5 * (2 * z) = c * 2 ^ nat (- k)" by simp
    then have "(5::int) dvd c * 2 ^ nat (- k)" by (metis dvd_triv_left)
    with five_not_dvd_pow2[OF c] show False by blast
  qed
qed


lemma third_not_dyadic: "real_of_int z * 2 powr real_of_int k \<noteq> - 1 / 3"
proof
  assume eq: "real_of_int z * 2 powr real_of_int k = - 1 / 3"
  show False
  proof (cases "0 \<le> k")
    case True
    from eq have "real_of_int (3 * (z * 2 ^ nat k)) = real_of_int (- 1)"
      by (simp add: pow2_int[OF True])
    then have "3 * (z * 2 ^ nat k) = - 1" by (simp only: of_int_eq_iff)
    then show False by presburger
  next
    case False
    then have k: "k = - int (nat (- k))" by simp
    have "2 powr real_of_int k = 1 / 2 ^ nat (- k)"
      by (subst k) (rule pow2_neg)
    with eq have "real_of_int z / 2 ^ nat (- k) = - 1 / 3" by simp
    then have "real_of_int (3 * z) = real_of_int (- (2 ^ nat (- k)))"
      by (simp add: field_simps)
    then have "3 * z = - (2 ^ nat (- k))" by (simp only: of_int_eq_iff)
    then have "(3::int) dvd 2 ^ nat (- k)" by (metis dvd_minus_iff dvd_triv_left)
    with three_not_dvd_pow2 show False by blast
  qed
qed

lemma np_true_divide_float64_dyadic:
  assumes "np_true_divide float64 a b = Finite y"
  shows "\<exists>z k. y = real_of_int z * 2 powr real_of_int k"
proof (cases a)
  case (Finite u)
  show ?thesis
  proof (cases b)
    case (Finite v)
    with \<open>a = Finite u\<close> assms have "float64 (u / v) = Finite y"
      by (simp split: if_splits)
    then show ?thesis by (rule float64_dyadic)
  next
    case PosInf
    with \<open>a = Finite u\<close> assms have "y = real_of_int 0 * 2 powr real_of_int 0" by simp
    then show ?thesis by blast
  next
    case NegInf
    with \<open>a = Finite u\<close> assms have "y = real_of_int 0 * 2 powr real_of_int 0" by simp
    then show ?thesis by blast
  next
    case NaN
    with \<open>a = Finite u\<close> assms show ?thesis by simp
  qed
next
  case PosInf
  with assms show ?thesis by (cases b) (simp_all split: if_splits)
next
  case NegInf
  with assms show ?thesis by (cases b) (simp_all split: if_splits)
next
  case NaN
  with assms show ?thesis by simp
qed

lemma np_sqrt_float64_dyadic:
  assumes "np_sqrt float64 a = Finite y"
  shows "\<exists>z k. y = real_of_int z * 2 powr real_of_int k"
proof (cases a)
  case (Finite u)
  with assms have "float64 (sqrt u) = Finite y" by (simp split: if_splits)
  then show ?thesis by (rule float64_dyadic)
qed (use assms in simp_all)

lemma ave_cols_float64_dyadic:
  assumes "has_shape m n X" and "0 < m" and "j < n" and "ave_cols float64 X ! j = Finite y"
  shows "\<exists>z k. y = real_of_int z * 2 powr real_of_int k"
proof -
  from ave_cols_column[OF assms(1,2), of float64] assms(3,4)
  have "fl_mean float64 (float_column float64 X j) = Finite y" by simp
  then show ?thesis unfolding fl_mean_def by (rule np_true_divide_float64_dyadic)
qed

lemma std_cols_float64_dyadic:
  assumes "has_shape m n X" and "0 < m" and "j < n" and "std_cols float64 X ! j = Finite y"
  shows "\<exists>z k. y = real_of_int z * 2 powr real_of_int k"
proof -
  from std_cols_column[OF assms(1,2), of float64] assms(3,4)
  have "fl_std float64 (float_column float64 X j) = Finite y" by simp
  then show ?thesis unfolding fl_std_def by (rule np_sqrt_float64_dyadic)
qed

text \<open>
  C2, as stated, fails in the code's arithmetic. For 100 rows of ones and 900 rows of
  zeros (an array \<^verbatim>\<open>randint\<close> can return) the mean of a column is \<open>1/10\<close>, its standard
  deviation \<open>3/10\<close> and the formula gives \<open>(0 - 1/10) / (3/10) = -1/3\<close> in the rows of
  zeros. None of the three is a float: \<open>ave_cols\<close>, \<open>std_cols\<close> and the entry of \<open>X_norm\<close>
  hold other numbers.
\<close>

theorem mean_normalization_rounds:
  "is_randint 0 5001 1000 20 tenth_ones \<and>
   spec_mu tenth_ones 0 = 1 / 10 \<and> spec_sigma tenth_ones 0 = 3 / 10 \<and>
   (real_of_int (tenth_ones ! 999 ! 0) - spec_mu tenth_ones 0) / spec_sigma tenth_ones 0 = - 1 / 3 \<and>
   ave_cols float64 tenth_ones ! 0 \<noteq> Finite (spec_mu tenth_ones 0) \<and>
   std_cols float64 tenth_ones ! 0 \<noteq> Finite (spec_sigma tenth_ones 0) \<and>
   X_norm float64 tenth_ones ! 999 ! 0 \<noteq>
     Finite ((real_of_int (tenth_ones ! 999 ! 0) - spec_mu tenth_ones 0) / spec_sigma tenth_ones 0)"
proof -
  have p: "(0::nat) < 1000" "(0::nat) < 20" "(999::nat) < 1000" by simp_all
  have e: "tenth_ones ! 999 ! 0 = 0" by (simp add: nth_append)
  have mu: "spec_mu tenth_ones 0 = 1 / 10" by (simp add: tenth_ones_mu)
  have sg: "spec_sigma tenth_ones 0 = 3 / 10" by (simp add: tenth_ones_sigma)
  have v: "(real_of_int (tenth_ones ! 999 ! 0) - spec_mu tenth_ones 0) / spec_sigma tenth_ones 0
             = - 1 / 3"
    by (simp add: e mu sg)
  have a: "ave_cols float64 tenth_ones ! 0 \<noteq> Finite (1 / 10)"
  proof
    assume "ave_cols float64 tenth_ones ! 0 = Finite (1 / 10)"
    from ave_cols_float64_dyadic[OF tenth_ones_shape p(1,2) this]
    obtain z k where "real_of_int z * 2 powr real_of_int k = real_of_int 1 / 10" by auto
    with tenths_not_dyadic[of 1 z k] show False by simp
  qed
  have s: "std_cols float64 tenth_ones ! 0 \<noteq> Finite (3 / 10)"
  proof
    assume "std_cols float64 tenth_ones ! 0 = Finite (3 / 10)"
    from std_cols_float64_dyadic[OF tenth_ones_shape p(1,2) this]
    obtain z k where "real_of_int z * 2 powr real_of_int k = real_of_int 3 / 10" by auto
    with tenths_not_dyadic[of 3 z k] show False by simp
  qed
  have x: "X_norm float64 tenth_ones ! 999 ! 0 \<noteq> Finite (- 1 / 3)"
  proof
    assume "X_norm float64 tenth_ones ! 999 ! 0 = Finite (- 1 / 3)"
    then have "np_true_divide float64
        (np_subtract float64 (float64 (real_of_int (tenth_ones ! 999 ! 0)))
           (ave_cols float64 tenth_ones ! 0))
        (std_cols float64 tenth_ones ! 0) = Finite (- 1 / 3)"
      by (simp only: X_norm_entry[OF tenth_ones_shape p(1,3,2), of float64])
    from np_true_divide_float64_dyadic[OF this] third_not_dyadic show False by metis
  qed
  from tenth_ones_randint mu sg v a s x show ?thesis by (simp only:) simp
qed

text \<open>
  C2, amended. For an integer array \<open>X\<close> of shape \<open>(m, n)\<close> with at least one row (the
  source's is \<open>(1000, 20)\<close>) and any rounding \<open>r\<close>, in particular the code's binary64:
  \<open>ave_cols\<close> and \<open>std_cols\<close> are vectors of length \<open>n\<close> that hold the mean and the
  population standard deviation of each column computed with rounded operations, and
  they are broadcast across the rows, so that entry \<open>(i, j)\<close> of \<open>X_norm\<close> is the rounded
  quotient of the rounded difference \<open>X[i][j] - ave_cols[j]\<close> by \<open>std_cols[j]\<close>. In exact
  arithmetic \<open>ave_cols[j]\<close> is \<open>\<mu>\<^sub>j\<close>, \<open>std_cols[j]\<close> is \<open>\<sigma>\<^sub>j\<close> and the entry is
  \<open>(X[i][j] - \<mu>\<^sub>j) / \<sigma>\<^sub>j\<close> where \<open>\<sigma>\<^sub>j\<close> is not zero.
\<close>

theorem mean_normalization_formula:
  assumes "has_shape m n X" and "0 < m" and "i < m" and "j < n"
  shows "X_norm r X ! i ! j =
           np_true_divide r
             (np_subtract r (r (real_of_int (X ! i ! j))) (ave_cols r X ! j))
             (std_cols r X ! j) \<and>
         has_shape m n (X_norm r X) \<and>
         length (ave_cols r X) = n \<and> ave_cols r X ! j = fl_mean r (float_column r X j) \<and>
         length (std_cols r X) = n \<and> std_cols r X ! j = fl_std r (float_column r X j) \<and>
         ave_cols exact X ! j = Finite (spec_mu X j) \<and>
         std_cols exact X ! j = Finite (spec_sigma X j) \<and>
         X_norm exact X ! i ! j =
           np_true_divide exact (Finite (real_of_int (X ! i ! j) - spec_mu X j))
             (Finite (spec_sigma X j)) \<and>
         (spec_sigma X j \<noteq> 0 \<longrightarrow>
            X_norm exact X ! i ! j =
              Finite ((real_of_int (X ! i ! j) - spec_mu X j) / spec_sigma X j))"
proof -
  have e: "X_norm exact X ! i ! j =
           np_true_divide exact (Finite (real_of_int (X ! i ! j) - spec_mu X j))
             (Finite (spec_sigma X j))"
    by (rule X_norm_nth[OF assms])
  have "spec_sigma X j \<noteq> 0 \<longrightarrow>
      X_norm exact X ! i ! j = Finite ((real_of_int (X ! i ! j) - spec_mu X j) / spec_sigma X j)"
    by (simp add: e)
  with e X_norm_entry[OF assms, of r] X_norm_shape[OF assms(1,2), of r]
    ave_cols_column[OF assms(1,2), of r] std_cols_column[OF assms(1,2), of r]
    ave_cols_nth[OF assms(1,2,4)] std_cols_nth[OF assms(1,2,4)] assms(4)
  show ?thesis by blast
qed

theorem mean_normalization_formula_witness:
  "has_shape 1000 20 two_level \<and>
   X_norm float64 two_level ! 0 ! 0 =
     np_true_divide float64
       (np_subtract float64 (float64 (real_of_int (two_level ! 0 ! 0)))
          (ave_cols float64 two_level ! 0))
       (std_cols float64 two_level ! 0) \<and>
   length (ave_cols float64 two_level) = 20 \<and> length (std_cols float64 two_level) = 20 \<and>
   ave_cols exact two_level ! 19 = Finite 3 \<and> std_cols exact two_level ! 19 = Finite 2 \<and>
   X_norm exact two_level ! 0 ! 0 = Finite (- 1) \<and> X_norm exact two_level ! 999 ! 19 = Finite 1"
proof -
  have a: "two_level ! 0 ! 0 = 1" by (simp add: nth_append)
  have b: "two_level ! 999 ! 19 = 5" by (simp add: nth_append)
  have p: "(0::nat) < 1000" "(0::nat) < 20" "(999::nat) < 1000" "(19::nat) < 20"
    by simp_all
  note f = mean_normalization_formula[OF two_level_shape p(1) p(1) p(2), of float64]
  note g = mean_normalization_formula[OF two_level_shape p(1) p(1) p(2), of exact]
  note h = mean_normalization_formula[OF two_level_shape p(1) p(3) p(4), of exact]
  from g have "X_norm exact two_level ! 0 ! 0 =
      np_true_divide exact (Finite (real_of_int (two_level ! 0 ! 0) - spec_mu two_level 0))
        (Finite (spec_sigma two_level 0))"
    by blast
  then have 1: "X_norm exact two_level ! 0 ! 0 = Finite (- 1)"
    by (simp add: a two_level_mu two_level_sigma)
  from h have "X_norm exact two_level ! 999 ! 19 =
      np_true_divide exact (Finite (real_of_int (two_level ! 999 ! 19) - spec_mu two_level 19))
        (Finite (spec_sigma two_level 19))"
    by blast
  then have 2: "X_norm exact two_level ! 999 ! 19 = Finite 1"
    by (simp add: b two_level_mu two_level_sigma)
  from h have "ave_cols exact two_level ! 19 = Finite (spec_mu two_level 19)"
    and "std_cols exact two_level ! 19 = Finite (spec_sigma two_level 19)"
    by blast+
  then have 3: "ave_cols exact two_level ! 19 = Finite 3"
    and 4: "std_cols exact two_level ! 19 = Finite 2"
    by (simp_all add: two_level_mu two_level_sigma)
  from f have 5: "X_norm float64 two_level ! 0 ! 0 =
     np_true_divide float64
       (np_subtract float64 (float64 (real_of_int (two_level ! 0 ! 0)))
          (ave_cols float64 two_level ! 0))
       (std_cols float64 two_level ! 0)"
    and 6: "length (ave_cols float64 two_level) = 20"
    and 7: "length (std_cols float64 two_level) = 20"
    by blast+
  from two_level_shape 1 2 3 4 5 6 7 show ?thesis by blast
qed


section \<open>Division by a zero standard deviation\<close>

lemma fives_randint: "is_randint 0 5001 1000 20 (replicate 1000 (replicate 20 5))"
  by (simp add: is_randint_def has_shape_def list_all_iff)

lemma fives_sigma: "j < 20 \<Longrightarrow> spec_sigma (replicate 1000 (replicate 20 5)) j = 0"
  by (simp add: spec_sigma_def column_std_def column_mean_def sum_list_replicate)

text \<open>
  C4. The normalization divides by \<open>std_cols\<close> without a guard, and the division raises
  nothing. In binary64, for an array that \<^verbatim>\<open>randint(0, 5001, (m, n))\<close> can return with at
  most 1024 rows (the source's has 1000): a column has a nonzero population standard
  deviation exactly when it holds two distinct values, and the code's \<open>std_cols\<close> is zero
  in exactly the columns whose standard deviation is zero. In such a column every entry of
  \<open>X_norm\<close> is the nan of \<open>0/0\<close>. In every other column the divisor is not zero and the
  entries of \<open>X_norm\<close> are finite, so when every column has a nonzero standard deviation no
  division takes the zero branch and \<open>X_norm\<close> holds finite numbers only.
\<close>

theorem normalization_division_by_zero:
  assumes "is_randint 0 5001 m n X" and "0 < m" and "m \<le> 1024"
  shows "(\<forall>j<n. (spec_sigma X j \<noteq> 0 \<longleftrightarrow> (\<exists>i<m. \<exists>i'<m. X ! i ! j \<noteq> X ! i' ! j)) \<and>
                 (std_cols float64 X ! j \<noteq> Finite 0 \<longleftrightarrow> spec_sigma X j \<noteq> 0)) \<and>
         ((\<forall>j<n. spec_sigma X j \<noteq> 0) \<longrightarrow>
            list_all (list_all np_isfinite) (X_norm float64 X)) \<and>
         (\<forall>j<n. spec_sigma X j \<noteq> 0 \<longrightarrow> (\<forall>i<m. np_isfinite (X_norm float64 X ! i ! j))) \<and>
         (\<forall>j<n. spec_sigma X j = 0 \<longrightarrow> (\<forall>i<m. X_norm float64 X ! i ! j = NaN))"
proof -
  from assms(1) have sh: "has_shape m n X" by (simp add: is_randint_def)
  have z: "std_cols float64 X ! j = Finite 0 \<and> (\<forall>i<m. X_norm float64 X ! i ! j = NaN)"
    if "j < n" and "spec_sigma X j = 0" for j
  proof -
    from that(2) randint_sigma_zero_iff[OF assms(1,2) that(1)]
    have "\<forall>i<m. \<forall>i'<m. X ! i ! j = X ! i' ! j" by blast
    then show ?thesis by (rule float64_constant_column[OF assms that(1)])
  qed
  have nz: "std_cols float64 X ! j \<noteq> Finite 0 \<and> (\<forall>i<m. np_isfinite (X_norm float64 X ! i ! j))"
    if "j < n" and "spec_sigma X j \<noteq> 0" for j
  proof -
    from that(2) randint_sigma_zero_iff[OF assms(1,2) that(1)]
    have "\<not> (\<forall>i<m. \<forall>i'<m. X ! i ! j = X ! i' ! j)" by blast
    then obtain i1 i2 where "i1 < m" "i2 < m" "X ! i1 ! j \<noteq> X ! i2 ! j" by blast
    then show ?thesis by (rule float64_nonconstant_column[OF assms that(1)])
  qed
  have 1: "\<forall>j<n. (spec_sigma X j \<noteq> 0 \<longleftrightarrow> (\<exists>i<m. \<exists>i'<m. X ! i ! j \<noteq> X ! i' ! j)) \<and>
                 (std_cols float64 X ! j \<noteq> Finite 0 \<longleftrightarrow> spec_sigma X j \<noteq> 0)"
  proof (intro allI impI conjI)
    fix j
    assume j: "j < n"
    show "spec_sigma X j \<noteq> 0 \<longleftrightarrow> (\<exists>i<m. \<exists>i'<m. X ! i ! j \<noteq> X ! i' ! j)"
      using randint_sigma_zero_iff[OF assms(1,2) j] by blast
    show "std_cols float64 X ! j \<noteq> Finite 0 \<longleftrightarrow> spec_sigma X j \<noteq> 0"
      using z[OF j] nz[OF j] by blast
  qed
  have 2: "list_all (list_all np_isfinite) (X_norm float64 X)"
    if all: "\<forall>j<n. spec_sigma X j \<noteq> 0"
  proof -
    from X_norm_shape[OF sh assms(2), of float64] have
      len: "length (X_norm float64 X) = m"
      and rows: "\<forall>i<m. length (X_norm float64 X ! i) = n"
      by (simp_all add: has_shape_def list_all_length)
    have "np_isfinite (X_norm float64 X ! i ! j)" if "i < m" and "j < n" for i j
      using nz[OF that(2)] all that by blast
    with len rows show ?thesis by (simp add: list_all_length)
  qed
  from 1 2 z nz show ?thesis by blast
qed

theorem normalization_division_by_zero_witness:
  "is_randint 0 5001 1000 20 two_level \<and>
   spec_sigma two_level 0 = 2 \<and> std_cols float64 two_level ! 0 \<noteq> Finite 0 \<and>
   list_all (list_all np_isfinite) (X_norm float64 two_level) \<and>
   is_randint 0 5001 1000 20 (replicate 1000 (replicate 20 5)) \<and>
   spec_sigma (replicate 1000 (replicate 20 5)) 0 = 0 \<and>
   std_cols float64 (replicate 1000 (replicate 20 5)) ! 0 = Finite 0 \<and>
   X_norm float64 (replicate 1000 (replicate 20 5)) ! 0 ! 0 = NaN"
proof -
  have p: "(0::nat) < 1000" "(1000::nat) \<le> 1024" "(0::nat) < 20" by simp_all
  note t = normalization_division_by_zero[OF two_level_randint p(1,2)]
  note f = normalization_division_by_zero[OF fives_randint p(1,2)]
  have s: "\<forall>j<20. spec_sigma two_level j \<noteq> 0" by (simp add: two_level_sigma)
  have s0: "spec_sigma two_level 0 = 2" by (simp add: two_level_sigma)
  have f0: "spec_sigma (replicate 1000 (replicate 20 5)) 0 = 0" by (simp add: fives_sigma)
  from t s have 1: "list_all (list_all np_isfinite) (X_norm float64 two_level)" by blast
  from s have "spec_sigma two_level 0 \<noteq> 0" by simp
  with t p(3) have 2: "std_cols float64 two_level ! 0 \<noteq> Finite 0" by blast
  from f f0 p(3) have 3: "std_cols float64 (replicate 1000 (replicate 20 5)) ! 0 = Finite 0"
    by blast
  from f f0 p(1,3) have 4: "X_norm float64 (replicate 1000 (replicate 20 5)) ! 0 ! 0 = NaN"
    by blast
  from two_level_randint fives_randint s0 f0 1 2 3 4 show ?thesis by blast
qed


section \<open>The normalized array\<close>

text \<open>
  C7. With exact arithmetic, for an array with at least one row and one column in which
  every column has a nonzero population standard deviation: every entry of \<open>X_norm\<close> is a
  finite number, and in the matrix \<open>Y\<close> of these numbers every column has mean 0 and
  population standard deviation 1, so that the mean of all elements of \<open>Y\<close> is 0. The
  code's own \<open>mean(axis=0)\<close>, \<open>std(axis=0)\<close> and \<open>mean()\<close> of \<open>X_norm\<close> return these values.
  The square root makes the arithmetic real rather than rational.
\<close>

theorem normalized_columns:
  assumes "has_shape m n X" and "0 < m" and "0 < n"
    and "\<forall>j<n. spec_sigma X j \<noteq> 0"
  shows "\<exists>Y. X_norm exact X = map (map Finite) Y \<and> has_shape m n Y \<and>
             (\<forall>j<n. column_mean Y j = 0 \<and> column_std Y j = 1) \<and>
             sum_list (concat Y) / real (length (concat Y)) = 0 \<and>
             mean_axis0 exact (X_norm exact X) = replicate n (Finite 0) \<and>
             std_axis0 exact (X_norm exact X) = replicate n (Finite 1) \<and>
             mean_all (X_norm exact X) = Finite 0"
proof -
  define R where "R = map (map real_of_int) X"
  define Y where "Y = map (\<lambda>row. map2 (/) (map2 (-) row (map (column_mean R) [0..<n]))
                         (map (column_std R) [0..<n])) R"
  have shR: "has_shape m n R" unfolding R_def by (rule has_shape_reals[OF assms(1)])
  from assms(4) have nzR: "\<forall>j<n. column_std R j \<noteq> 0" by (simp add: spec_sigma_def R_def)
  from normalized_reals[OF shR assms(2) nzR] have
    shY: "has_shape m n Y" and mean0: "\<forall>j<n. column_mean Y j = 0"
    and std1: "\<forall>j<n. column_std Y j = 1"
    unfolding Y_def by blast+
  have XY: "X_norm exact X = map (map Finite) Y"
    unfolding Y_def R_def by (rule X_norm_Finite[OF assms(1,2,4)])
  have "mean_axis0 exact (X_norm exact X) = map (\<lambda>j. Finite (column_mean Y j)) [0..<n]"
    unfolding XY by (rule mean_axis0_Finite[OF shY assms(2)])
  also have "\<dots> = map (\<lambda>j. Finite 0) [0..<n]"
    using mean0 by (intro map_cong) simp_all
  finally have 1: "mean_axis0 exact (X_norm exact X) = replicate n (Finite 0)"
    by (simp add: map_replicate_const)
  have "std_axis0 exact (X_norm exact X) = map (\<lambda>j. Finite (column_std Y j)) [0..<n]"
    unfolding XY by (rule std_axis0_Finite[OF shY assms(2)])
  also have "\<dots> = map (\<lambda>j. Finite 1) [0..<n]"
    using std1 by (intro map_cong) simp_all
  finally have 2: "std_axis0 exact (X_norm exact X) = replicate n (Finite 1)"
    by (simp add: map_replicate_const)
  from shY have lY: "length Y = m" by (simp add: has_shape_def)
  have "sum_list (map (\<lambda>row. row ! j) Y) = 0" if "j < n" for j
    using mean0 that assms(2) by (simp add: column_mean_def lY)
  then have s0: "sum_list (concat Y) = 0"
    by (simp add: sum_list_concat_columns[OF shY])
  then have 3: "sum_list (concat Y) / real (length (concat Y)) = 0" by simp
  have 4: "mean_all (X_norm exact X) = Finite 0"
    unfolding XY mean_all_Finite[OF shY assms(2,3)] s0 by simp
  from XY shY mean0 std1 1 2 3 4 show ?thesis by blast
qed

theorem normalized_columns_witness:
  "has_shape 1000 20 two_level \<and> spec_mu two_level 0 = 3 \<and> spec_sigma two_level 0 = 2 \<and>
   (\<exists>Y. X_norm exact two_level = map (map Finite) Y \<and>
        Y ! 0 ! 0 = - 1 \<and> Y ! 999 ! 0 = 1 \<and>
        column_mean Y 0 = 0 \<and> column_std Y 0 = 1 \<and>
        sum_list (concat Y) / real (length (concat Y)) = 0) \<and>
   std_axis0 exact (X_norm exact two_level) = replicate 20 (Finite 1) \<and>
   mean_all (X_norm exact two_level) = Finite 0"
proof -
  have p: "(0::nat) < 1000" "(0::nat) < 20" "(999::nat) < 1000" by simp_all
  have s: "\<forall>j<20. spec_sigma two_level j \<noteq> 0" by (simp add: two_level_sigma)
  from normalized_columns[OF two_level_shape p(1,2) s] obtain Y where
    XY: "X_norm exact two_level = map (map Finite) Y" and shY: "has_shape 1000 20 Y"
    and col: "\<forall>j<20. column_mean Y j = 0 \<and> column_std Y j = 1"
    and tot: "sum_list (concat Y) / real (length (concat Y)) = 0"
    and sd: "std_axis0 exact (X_norm exact two_level) = replicate 20 (Finite 1)"
    and ma: "mean_all (X_norm exact two_level) = Finite 0"
    by blast
  from shY have lY: "length Y = 1000" and rows: "\<forall>i<1000. length (Y ! i) = 20"
    by (simp_all add: has_shape_def list_all_length)
  have a: "two_level ! 0 ! 0 = 1" by (simp add: nth_append)
  have b: "two_level ! 999 ! 0 = 5" by (simp add: nth_append)
  have "X_norm exact two_level ! 0 ! 0 = Finite (- 1)"
    by (simp add: X_norm_nth[OF two_level_shape p(1) p(1) p(2)] a two_level_mu two_level_sigma)
  moreover have "X_norm exact two_level ! 0 ! 0 = Finite (Y ! 0 ! 0)"
    unfolding XY using lY rows by simp
  ultimately have y0: "Y ! 0 ! 0 = - 1" by simp
  have "X_norm exact two_level ! 999 ! 0 = Finite 1"
    by (simp add: X_norm_nth[OF two_level_shape p(1) p(3) p(2)] b two_level_mu two_level_sigma)
  moreover have "X_norm exact two_level ! 999 ! 0 = Finite (Y ! 999 ! 0)"
    unfolding XY using lY rows by simp
  ultimately have y1: "Y ! 999 ! 0 = 1" by simp
  from col p(2) have c0: "column_mean Y 0 = 0 \<and> column_std Y 0 = 1" by blast
  have m0: "spec_mu two_level 0 = 3" and s0: "spec_sigma two_level 0 = 2"
    by (simp_all add: two_level_mu two_level_sigma)
  from two_level_shape m0 s0 XY y0 y1 c0 tot sd ma show ?thesis by blast
qed

section \<open>Properties of the training loop\<close>

lemma batch_loop_foldl:
  "batch_loop train_step e it s = Some (foldl (\<lambda>s b. batch_body train_step e b s) s it)"
  by (induction it arbitrary: s) (simp_all add: batch_loop.simps)

lemma steps_batch_body: "steps (batch_body train_step e b s) = steps s + 1"
  by (simp add: batch_body_def Let_def split: prod.split)

lemma steps_foldl_batch_body:
  "steps (foldl (\<lambda>s b. batch_body train_step e b s) s it) = steps s + int (length it)"
  by (induction it arbitrary: s) (simp_all add: steps_batch_body)

lemma epoch_loop_steps:
  "\<exists>s'. epoch_loop train_step trainloader it s = Some s' \<and>
         steps s' = steps s + (\<Sum>e\<leftarrow>it. int (length (trainloader e)))"
proof (induction it arbitrary: s)
  case Nil
  show ?case by (simp add: epoch_loop.simps)
next
  case (Cons e it)
  let ?s1 = "foldl (\<lambda>s b. batch_body train_step e b s) (s\<lparr>running_loss := 0\<rparr>) (trainloader e)"
  from Cons[of ?s1] obtain s' where
    s': "epoch_loop train_step trainloader it ?s1 = Some s'"
        "steps s' = steps ?s1 + (\<Sum>e\<leftarrow>it. int (length (trainloader e)))"
    by blast
  have "epoch_loop train_step trainloader (e # it) s = Some s'"
    by (simp add: epoch_loop.simps[of _ _ "e # it"] batch_loop_foldl s'(1))
  moreover have "steps s' = steps s + (\<Sum>e\<leftarrow>e # it. int (length (trainloader e)))"
    by (simp add: s'(2) steps_foldl_batch_body)
  ultimately show ?case by blast
qed

text \<open>
  C5. The nested loops end on every loader that yields finitely many mini-batches in
  each pass: the training loop returns a final state, and its step counter is then the
  number of batches of the three passes, so the body ran once for each batch.
\<close>

theorem training_terminates:
  "\<exists>s. training train_step trainloader net0 = Some s \<and>
       steps s = int (length (trainloader 0)) + int (length (trainloader 1))
                 + int (length (trainloader 2))"
proof -
  have r: "[0..epochs - 1] = [0, 1, 2]" by (simp add: epochs_def upto.simps)
  from epoch_loop_steps[of train_step trainloader "[0, 1, 2]"
      "\<lparr>steps = 0, running_loss = 0, net = net0, printed = []\<rparr>"]
  show ?thesis by (auto simp add: training_def r)
qed

theorem training_terminates_witness:
  "\<exists>s. training (\<lambda>m b. (m, b)) (\<lambda>e. replicate 50 (1::real)) () = Some s \<and> steps s = 150"
  using training_terminates[of "\<lambda>m b. (m, b)" "\<lambda>e. replicate 50 (1::real)" "()"]
  by simp

lemma batch_body_prints_iff:
  "printed (batch_body train_step e b s) \<noteq> printed s \<longleftrightarrow>
     steps (batch_body train_step e b s) mod print_every = 0"
  by (simp add: batch_body_def Let_def split: prod.split)

lemma div_40_step_multiple:
  fixes x :: int
  assumes "(x + 1) mod 40 = 0"
  shows "(x + 1) div 40 = x div 40 + 1"
  using assms by (auto simp: mod_eq_0_iff_dvd elim!: dvdE)

lemma div_40_step_other:
  fixes x :: int
  assumes "(x + 1) mod 40 \<noteq> 0"
  shows "(x + 1) div 40 = x div 40"
proof -
  define q r where "q = x div 40" and "r = x mod 40"
  have x: "x = 40 * q + r" and r: "0 \<le> r" "r < 40" by (simp_all add: q_def r_def)
  have "r \<noteq> 39"
  proof
    assume "r = 39"
    with x have "x + 1 = 40 * (q + 1)" by simp
    then have "(x + 1) mod 40 = 0" by (simp only: mod_mult_self1_is_0)
    with assms show False by simp
  qed
  with r have "0 \<le> r + 1" "r + 1 < 40" by simp_all
  moreover from x have "x + 1 = 40 * q + (r + 1)" by simp
  ultimately have "(x + 1) div 40 = q" by (rule_tac int_div_pos_eq) auto
  then show ?thesis by (simp only: q_def)
qed

lemma printed_batch_body:
  assumes "0 \<le> steps s" and "int (length (printed s)) = steps s div print_every"
  shows "0 \<le> steps (batch_body train_step e b s) \<and>
         int (length (printed (batch_body train_step e b s))) =
           steps (batch_body train_step e b s) div print_every"
proof -
  obtain net' loss where ts: "train_step (net s) b = (net', loss)"
    by (cases "train_step (net s) b")
  have st: "steps (batch_body train_step e b s) = steps s + 1"
    by (rule steps_batch_body)
  from assms(2) have a: "int (length (printed s)) = steps s div 40"
    by (simp only: print_every_def)
  have "int (length (printed (batch_body train_step e b s))) = (steps s + 1) div 40"
  proof (cases "(steps s + 1) mod 40 = 0")
    case True
    then have "length (printed (batch_body train_step e b s)) = Suc (length (printed s))"
      by (simp add: batch_body_def Let_def ts print_every_def)
    then have "int (length (printed (batch_body train_step e b s))) = steps s div 40 + 1"
      by (simp only: a[symmetric] of_nat_Suc)
    then show ?thesis by (simp only: div_40_step_multiple[OF True])
  next
    case False
    then have "length (printed (batch_body train_step e b s)) = length (printed s)"
      by (simp add: batch_body_def Let_def ts print_every_def)
    then show ?thesis by (simp only: a div_40_step_other[OF False])
  qed
  moreover from assms(1) have "0 \<le> steps s + 1" by simp
  ultimately show ?thesis by (simp only: st print_every_def) 
qed

lemma printed_foldl:
  assumes "0 \<le> steps s" and "int (length (printed s)) = steps s div print_every"
  shows "0 \<le> steps (foldl (\<lambda>s b. batch_body train_step e b s) s it) \<and>
         int (length (printed (foldl (\<lambda>s b. batch_body train_step e b s) s it))) =
           steps (foldl (\<lambda>s b. batch_body train_step e b s) s it) div print_every"
  using assms
proof (induction it arbitrary: s)
  case Nil
  then show ?case by simp
next
  case (Cons b it)
  from printed_batch_body[OF Cons.prems, of train_step e b] Cons.IH show ?case by simp
qed

lemma printed_epoch_loop:
  assumes "0 \<le> steps s" and "int (length (printed s)) = steps s div print_every"
    and "epoch_loop train_step trainloader it s = Some s'"
  shows "int (length (printed s')) = steps s' div print_every"
  using assms
proof (induction it arbitrary: s)
  case Nil
  then show ?case by (simp add: epoch_loop.simps)
next
  case (Cons e it)
  let ?s0 = "s\<lparr>running_loss := 0\<rparr>"
  let ?s1 = "foldl (\<lambda>s b. batch_body train_step e b s) ?s0 (trainloader e)"
  from Cons.prems(1,2) have "0 \<le> steps ?s0" "int (length (printed ?s0)) = steps ?s0 div print_every"
    by simp_all
  from printed_foldl[OF this, of train_step e "trainloader e"]
  have inv: "0 \<le> steps ?s1" "int (length (printed ?s1)) = steps ?s1 div print_every" by simp_all
  from Cons.prems(3) have "epoch_loop train_step trainloader it ?s1 = Some s'"
    by (simp add: epoch_loop.simps[of _ _ "e # it"] batch_loop_foldl)
  from Cons.IH[OF inv this] show ?case .
qed

lemma printed_every_40_steps:
  assumes "training train_step trainloader net0 = Some s"
  shows "int (length (printed s)) = steps s div 40"
  using printed_epoch_loop[of "\<lparr>steps = 0, running_loss = 0, net = net0, printed = []\<rparr>"
      train_step trainloader "[0..epochs - 1]" s] assms
  by (simp add: training_def print_every_def)

text \<open>
  C3. A line is printed exactly at the steps that are multiples of 40, whatever the
  epoch (the lemmas above). Its value is not always the sum of the 40 losses since the
  previous line over 40. Here the loader yields 50 mini-batches in each pass and every
  batch has loss 1, so any 40 consecutive losses sum to 40 and their mean is 1. Lines
  are printed at steps 40, 80 and 120: the first value is 1, the second is 30/40 and the
  third 20/40, because \<open>running_loss\<close> was reset when epochs 2 and 3 began (after steps
  50 and 100) while \<open>steps\<close> kept counting.
\<close>

theorem training_prints_partial_sums:
  "training (\<lambda>m b. (m, b)) (\<lambda>e. replicate 50 (1::real)) () =
     Some \<lparr>steps = 150, running_loss = 30, net = (),
           printed = [(1, 3, 1), (2, 3, 3 / 4), (3, 3, 1 / 2)]\<rparr>"
  by code_simp

end
